theory Spec2Isabelle
  imports Main "HOL-Library.AList"
begin

section \<open>Python values, keyword arguments and errors\<close>

text \<open>
  The wrapper of \<^verbatim>\<open>src/wrapper.py\<close> drives a \<^verbatim>\<open>googleapiclient\<close> resource.
  Exceptions are values of \<open>error\<close>; only \<open>HttpError\<close> carries a status code, which
  is what the handler of \<^verbatim>\<open>_yield_all\<close> inspects.
\<close>

datatype error =
    HttpError (status_code: int)
  | ValueError
  | TypeError
  | AttributeError
  | OverflowError
  | OtherException

text \<open>
  The values that the callers in \<^verbatim>\<open>src/main.py\<close> pass as keyword arguments:
  \<^verbatim>\<open>part="snippet"\<close>, \<^verbatim>\<open>mine=True\<close>, \<^verbatim>\<open>id=[...]\<close>, and the
  \<^verbatim>\<open>maxResults=50\<close> that the wrapper itself sets.
\<close>

datatype 'i pyval = PInt int | PBool bool | PStr string | PList "'i list"

text \<open>
  \<^verbatim>\<open>**kwargs\<close> is a Python dict: keys are distinct and keep their insertion order.
  An association list with \<open>AList.update\<close> (overwrite in place, else append) and
  \<open>AList.delete\<close> behaves the same way.
\<close>

type_synonym 'i kwargs = "(string \<times> 'i pyval) list"

text \<open>\<^verbatim>\<open>len(v)\<close>: defined on lists and strings, a \<^verbatim>\<open>TypeError\<close> on numbers.\<close>

fun py_len :: "'i pyval \<Rightarrow> error + nat" where
  "py_len (PList xs) = Inr (length xs)"
| "py_len (PStr s) = Inr (length s)"
| "py_len (PInt n) = Inl TypeError"
| "py_len (PBool b) = Inl TypeError"

text \<open>\<^verbatim>\<open>v[i : j]\<close> for \<open>0 \<le> i \<le> j\<close>: a slice never reads out of range, it is cut short.\<close>

fun py_slice :: "'i pyval \<Rightarrow> nat \<Rightarrow> nat \<Rightarrow> error + 'i pyval" where
  "py_slice (PList xs) i j = Inr (PList (take (j - i) (drop i xs)))"
| "py_slice (PStr s) i j = Inr (PStr (take (j - i) (drop i s)))"
| "py_slice (PInt n) i j = Inl TypeError"
| "py_slice (PBool b) i j = Inl TypeError"

text \<open>\<^verbatim>\<open>range(0, n, step)\<close> as a list: the multiples of \<open>step\<close> below \<open>n\<close>.\<close>

definition py_range :: "nat \<Rightarrow> nat \<Rightarrow> nat list" where
  "py_range n step = map (\<lambda>k. k * step) [0 ..< (n + step - 1) div step]"

subsection \<open>\<^verbatim>\<open>math.ceil(t / 50)\<close>\<close>

text \<open>
  Line 62 divides two integers with \<^verbatim>\<open>/\<close>: the result is the float nearest to
  the quotient (ties to the even mantissa), and an \<^verbatim>\<open>OverflowError\<close> when that
  float would be \<open>2\<^sup>1\<^sup>0\<^sup>2\<^sup>4\<close> or more. \<^verbatim>\<open>math.ceil\<close> then gives the least integer
  not below the float. The float is kept as a pair \<open>(m, k)\<close> that stands for
  \<open>m \<cdot> 2\<^sup>k\<close>, with a mantissa \<open>m\<close> of 53 bits.
\<close>

text \<open>\<^verbatim>\<open>n.bit_length()\<close>.\<close>

function bit_length :: "nat \<Rightarrow> nat" where
  "bit_length n = (if n = 0 then 0 else Suc (bit_length (n div 2)))"
  by pat_completeness auto
termination
  by (relation "measure (\<lambda>n. n)") auto

declare bit_length.simps [simp del]

text \<open>The integer nearest to \<open>n / d\<close> for \<open>0 \<le> n\<close> and \<open>0 < d\<close>, ties to even.\<close>

definition round_half_even :: "int \<Rightarrow> int \<Rightarrow> int" where
  "round_half_even n d =
     (let q = n div d; r = n mod d
      in if 2 * r < d then q
         else if d < 2 * r then q + 1
         else if even q then q else q + 1)"

text \<open>
  \<open>a / 50\<close> for a positive integer \<open>a\<close>. The exponent \<open>e\<close> of the quotient, with
  \<open>2\<^sup>e \<le> a / 50 < 2\<^sup>e\<^sup>+\<^sup>1\<close>, is \<open>bit_length a - 6\<close> or one less, since
  \<open>2\<^sup>5 \<le> 50 < 2\<^sup>6\<close>; the mantissa is the quotient in units of \<open>2\<^sup>e\<^sup>-\<^sup>5\<^sup>2\<close>, rounded.
\<close>

definition true_div_50 :: "nat \<Rightarrow> error + int \<times> int" where
  "true_div_50 a =
     (let c = int (bit_length a) - 6;
          e = (if (if 0 \<le> c then 50 * 2 ^ nat c \<le> int a else 50 \<le> int a * 2 ^ nat (- c))
               then c else c - 1);
          k = e - 52;
          m = (if k \<le> 0 then round_half_even (int a * 2 ^ nat (- k)) 50
               else round_half_even (int a) (50 * 2 ^ nat k))
      in if 0 < k \<and> 2 ^ 1024 \<le> m * 2 ^ nat k then Inl OverflowError else Inr (m, k))"

text \<open>\<^verbatim>\<open>math.ceil\<close> and \<^verbatim>\<open>math.floor\<close> of the float \<open>m \<cdot> 2\<^sup>k\<close>.\<close>

definition ceil_float :: "int \<Rightarrow> int \<Rightarrow> int" where
  "ceil_float m k = (if 0 \<le> k then m * 2 ^ nat k else - ((- m) div 2 ^ nat (- k)))"

definition floor_float :: "int \<Rightarrow> int \<Rightarrow> int" where
  "floor_float m k = (if 0 \<le> k then m * 2 ^ nat k else m div 2 ^ nat (- k))"

text \<open>
  \<^verbatim>\<open>math.ceil(t / 50)\<close>. The quotient of a negative \<open>t\<close> is the negated quotient
  of \<open>- t\<close>.
\<close>

definition total_pages :: "int \<Rightarrow> error + int" where
  "total_pages t =
     (if t = 0 then Inr 0
      else case true_div_50 (nat \<bar>t\<bar>) of
             Inl e \<Rightarrow> Inl e
           | Inr (m, k) \<Rightarrow> Inr (if 0 < t then ceil_float m k else - floor_float m k))"

section \<open>The resource and its pages\<close>

text \<open>
  One response of the endpoint: \<^verbatim>\<open>res["pageInfo"]["totalResults"]\<close> and
  \<^verbatim>\<open>res["items"]\<close>. Items are opaque. A response always has both entries, as
  the listing endpoints of the API do, and the total is an integer; the
  \<^verbatim>\<open>KeyError\<close> of a response without them is outside the model.
\<close>

datatype 'item page = Page (totalResults: int) (items: "'item list")

text \<open>
  An attribute of the resource object is either callable or some other value;
  a missing attribute is \<open>None\<close>. \<open>req_execute\<close> is the \<^verbatim>\<open>execute\<close> method of the
  request objects the resource hands out. Every call may raise.
\<close>

datatype 'f attr = Callable 'f | Plain

record ('i, 'req, 'item) resource =
  attr_list :: "('i kwargs \<Rightarrow> error + 'req) attr option"
  attr_list_next :: "('req \<Rightarrow> 'item page \<Rightarrow> error + 'req option) attr option"
  req_execute :: "'req \<Rightarrow> error + 'item page"

text \<open>\<^verbatim>\<open>hasattr(resource, name) and callable(getattr(resource, name))\<close>.\<close>

fun has_callable :: "'f attr option \<Rightarrow> bool" where
  "has_callable (Some (Callable f)) = True"
| "has_callable (Some Plain) = False"
| "has_callable None = False"

text \<open>
  Calling an attribute: \<^verbatim>\<open>AttributeError\<close> when it is missing, \<^verbatim>\<open>TypeError\<close> when
  it is not callable.
\<close>

definition call_list ::
  "('i, 'req, 'item) resource \<Rightarrow> 'i kwargs \<Rightarrow> error + 'req" where
  "call_list r kwargs =
     (case attr_list r of
        None \<Rightarrow> Inl AttributeError
      | Some Plain \<Rightarrow> Inl TypeError
      | Some (Callable f) \<Rightarrow> f kwargs)"

definition call_list_next ::
  "('i, 'req, 'item) resource \<Rightarrow> 'req \<Rightarrow> 'item page \<Rightarrow> error + 'req option" where
  "call_list_next r req res =
     (case attr_list_next r of
        None \<Rightarrow> Inl AttributeError
      | Some Plain \<Rightarrow> Inl TypeError
      | Some (Callable f) \<Rightarrow> f req res)"

section \<open>The wrapper\<close>

datatype ('i, 'req, 'item) wrapper =
  Wrapper (resource_of: "('i, 'req, 'item) resource")

text \<open>\<^verbatim>\<open>Wrapper.__init__\<close> (lines 25 to 44).\<close>

definition Wrapper_init ::
  "('i, 'req, 'item) resource \<Rightarrow> error + ('i, 'req, 'item) wrapper" where
  "Wrapper_init r =
     (if \<not> (has_callable (attr_list r) \<and> has_callable (attr_list_next r))
      then Inl ValueError
      else Inr (Wrapper r))"

section \<open>Observable events\<close>

text \<open>
  What a run does besides yielding items: the calls it makes on the resource, the
  updates of an enabled progress bar, and the error it logs. A disabled \<^verbatim>\<open>tqdm\<close>
  bar produces nothing.
\<close>

datatype ('i, 'req, 'item) event =
    CallList "'i kwargs"
  | CallExecute 'req
  | CallListNext 'req "'item page"
  | PageBar string int
  | BatchBar string nat
  | BatchStep
  | LogError error

text \<open>What one \<^verbatim>\<open>next()\<close> on a generator gives its consumer.\<close>

datatype 'item pulled = Item 'item | StopIteration | Raised error

definition emit ::
  "'e list \<Rightarrow> 'e list \<times> 'r \<times> 's \<Rightarrow> ('e list \<times> 'r \<times> 's) option" where
  "emit es x = (case x of (es', r, st) \<Rightarrow> Some (es @ es', r, st))"

section \<open>The generator \<^verbatim>\<open>_yield_all\<close>\<close>

text \<open>
  An identifier cannot start with an underscore: \<^verbatim>\<open>_yield_all\<close> is
  \<open>yield_all_priv\<close> below. A generator is suspended at a program point. \<open>Entry\<close>: created, body not yet
  entered (line 55). \<open>While\<close>: at the loop test of line 59 with the current value of
  \<^verbatim>\<open>req\<close>. \<open>For\<close>: inside the loop over \<^verbatim>\<open>res["items"]\<close> (line 65), with the
  items not yet yielded. \<open>Exit\<close>: finished. The flag and the string are
  \<^verbatim>\<open>progress_bar\<close> and \<^verbatim>\<open>desc\<close>.
\<close>

datatype ('i, 'req, 'item) gen =
    Entry bool string "'i kwargs"
  | While bool string "'req option"
  | For bool string 'req "'item page" "'item list"
  | Exit

text \<open>
  The handler of lines 70 to 74: a 404 ends the generator normally, any other
  \<^verbatim>\<open>HttpError\<close> is logged and raised again; an exception that is not an
  \<^verbatim>\<open>HttpError\<close> is not caught at all.
\<close>

fun except_HttpError ::
  "error \<Rightarrow> ('i, 'req, 'item) event list \<times> 'item pulled \<times> ('i, 'req, 'item) gen" where
  "except_HttpError (HttpError s) =
     (if s = 404 then ([], StopIteration, Exit)
      else ([LogError (HttpError s)], Raised (HttpError s), Exit))"
| "except_HttpError e = ([], Raised e, Exit)"

text \<open>
  One \<^verbatim>\<open>next()\<close> on the generator: run from the program point to the next
  \<^verbatim>\<open>yield\<close>, to the end, or to an exception that leaves the body. Line 62
  computes the total of the bar for every page, also when the bar is disabled, so
  its \<^verbatim>\<open>OverflowError\<close> ends the generator before the items of that page; it is
  raised inside the \<^verbatim>\<open>try\<close> and is not an \<^verbatim>\<open>HttpError\<close>. A resource that
  keeps answering with empty pages keeps the loop running: the value is then \<open>None\<close>.
\<close>

partial_function (option) yield_all_priv ::
  "('i, 'req, 'item) wrapper \<Rightarrow> ('i, 'req, 'item) gen \<Rightarrow>
   (('i, 'req, 'item) event list \<times> 'item pulled \<times> ('i, 'req, 'item) gen) option" where
  "yield_all_priv self st =
     (case st of
        Entry progress_bar desc kwargs \<Rightarrow>
          (let kwargs' = AList.update ''maxResults'' (PInt 50) kwargs in
           case call_list (resource_of self) kwargs' of
             Inl e \<Rightarrow> Some ([CallList kwargs'], Raised e, Exit)
           | Inr req \<Rightarrow>
               Option.bind (yield_all_priv self (While progress_bar desc (Some req)))
                 (emit [CallList kwargs']))
      | While progress_bar desc None \<Rightarrow> Some ([], StopIteration, Exit)
      | While progress_bar desc (Some req) \<Rightarrow>
          (case req_execute (resource_of self) req of
             Inl e \<Rightarrow> emit [CallExecute req] (except_HttpError e)
           | Inr res \<Rightarrow>
               (case total_pages (totalResults res) of
                  Inl e \<Rightarrow> emit [CallExecute req] (except_HttpError e)
                | Inr n_pages \<Rightarrow>
                    Option.bind
                      (yield_all_priv self (For progress_bar desc req res (items res)))
                      (emit (CallExecute req #
                         (if progress_bar then [PageBar desc n_pages] else [])))))
      | For progress_bar desc req res (item # rest) \<Rightarrow>
          Some ([], Item item, For progress_bar desc req res rest)
      | For progress_bar desc req res [] \<Rightarrow>
          (case call_list_next (resource_of self) req res of
             Inl e \<Rightarrow> emit [CallListNext req res] (except_HttpError e)
           | Inr req' \<Rightarrow>
               Option.bind (yield_all_priv self (While progress_bar desc req'))
                 (emit [CallListNext req res]))
      | Exit \<Rightarrow> Some ([], StopIteration, Exit))"

section \<open>The generator \<^verbatim>\<open>yield_all\<close>\<close>

text \<open>
  Program points of \<^verbatim>\<open>yield_all\<close> (lines 93 to 109). \<open>YEntry\<close>: created, body
  not yet entered. \<open>YElse\<close>: delegating to the generator of line 109.
  \<open>YForHead\<close>: at the head of the loop of line 97, with the popped \<^verbatim>\<open>kwargs\<close>,
  \<^verbatim>\<open>ids\<close> and the indices still to come. \<open>YFrom\<close>: delegating to the generator of
  line 107 for the current index, the later indices still to come. \<open>YExit\<close>: finished.
\<close>

datatype ('i, 'req, 'item) ygen =
    YEntry bool string "'i kwargs"
  | YElse "('i, 'req, 'item) gen"
  | YForHead bool string "'i kwargs" "'i pyval" "nat list"
  | YFrom bool string "'i kwargs" "'i pyval" "nat list" "('i, 'req, 'item) gen"
  | YExit

text \<open>
  The bar of \<^verbatim>\<open>trange(0, len(ids), 50, ...)\<close>: it is sized to the number of
  indices when it is made, and advances each time the loop comes back for the next
  index. Disabled, it does nothing.
\<close>

definition batch_bar :: "bool \<Rightarrow> string \<Rightarrow> nat \<Rightarrow> ('i, 'req, 'item) event list" where
  "batch_bar progress_bar desc n = (if progress_bar then [BatchBar desc n] else [])"

definition batch_step :: "bool \<Rightarrow> ('i, 'req, 'item) event list" where
  "batch_step progress_bar = (if progress_bar then [BatchStep] else [])"

fun ygen_rank :: "('i, 'req, 'item) ygen \<Rightarrow> nat" where
  "ygen_rank (YEntry pb desc kwargs) = 1"
| "ygen_rank st = 0"

fun ygen_left :: "('i, 'req, 'item) ygen \<Rightarrow> nat" where
  "ygen_left (YForHead pb desc kwargs ids idxs) = 2 * length idxs + 1"
| "ygen_left (YFrom pb desc kwargs ids idxs g) = 2 * length idxs + 2"
| "ygen_left st = 0"

text \<open>
  One \<^verbatim>\<open>next()\<close> on the generator of \<^verbatim>\<open>yield_all\<close>. The test of line 93 is
  \<^verbatim>\<open>"id" in kwargs and len(kwargs["id"]) > 50\<close>, and the \<^verbatim>\<open>len\<close> of a number
  raises. \<^verbatim>\<open>yield from\<close> hands
  every item of the inner generator on, resumes after the inner generator has
  returned, and lets its exception through. The inner generators of line 107 get
  neither \<^verbatim>\<open>progress_bar\<close> nor \<^verbatim>\<open>desc\<close>, so they run with the defaults
  \<^verbatim>\<open>False\<close> and \<^verbatim>\<open>""\<close>.
\<close>

function (sequential) yield_all ::
  "('i, 'req, 'item) wrapper \<Rightarrow> ('i, 'req, 'item) ygen \<Rightarrow>
   (('i, 'req, 'item) event list \<times> 'item pulled \<times> ('i, 'req, 'item) ygen) option" where
  "yield_all self (YEntry progress_bar desc kwargs) =
     (case map_of kwargs ''id'' of
        None \<Rightarrow> yield_all self (YElse (Entry progress_bar desc kwargs))
      | Some ids \<Rightarrow>
          (case py_len ids of
             Inl e \<Rightarrow> Some ([], Raised e, YExit)
           | Inr n \<Rightarrow>
               if n > 50 then
                 Option.bind
                   (yield_all self
                      (YForHead progress_bar desc (AList.delete ''id'' kwargs) ids
                         (py_range n 50)))
                   (emit (batch_bar progress_bar desc (length (py_range n 50))))
               else yield_all self (YElse (Entry progress_bar desc kwargs))))"
| "yield_all self (YForHead progress_bar desc kwargs ids []) =
     Some ([], StopIteration, YExit)"
| "yield_all self (YForHead progress_bar desc kwargs ids (i # rest)) =
     (case py_slice ids i (i + 50) of
        Inl e \<Rightarrow> Some ([], Raised e, YExit)
      | Inr batch \<Rightarrow>
          yield_all self
            (YFrom progress_bar desc kwargs ids rest
               (Entry False [] (kwargs @ [(''id'', batch)]))))"
| "yield_all self (YFrom progress_bar desc kwargs ids rest g) =
     (case yield_all_priv self g of
        None \<Rightarrow> None
      | Some (es, Item item, g') \<Rightarrow>
          Some (es, Item item, YFrom progress_bar desc kwargs ids rest g')
      | Some (es, Raised e, g') \<Rightarrow> Some (es, Raised e, YExit)
      | Some (es, StopIteration, g') \<Rightarrow>
          Option.bind (yield_all self (YForHead progress_bar desc kwargs ids rest))
            (emit (es @ batch_step progress_bar)))"
| "yield_all self (YElse g) =
     (case yield_all_priv self g of
        None \<Rightarrow> None
      | Some (es, Item item, g') \<Rightarrow> Some (es, Item item, YElse g')
      | Some (es, Raised e, g') \<Rightarrow> Some (es, Raised e, YExit)
      | Some (es, StopIteration, g') \<Rightarrow> Some (es, StopIteration, YExit))"
| "yield_all self YExit = Some ([], StopIteration, YExit)"
  by pat_completeness auto
termination
  by (relation "measures [\<lambda>(self, st). ygen_rank st, \<lambda>(self, st). ygen_left st]") auto

section \<open>Consumers\<close>

text \<open>
  How a consumer that runs a generator to its end sees it: \<^verbatim>\<open>list(g)\<close> and a
  \<^verbatim>\<open>for\<close> loop without \<^verbatim>\<open>break\<close> call \<^verbatim>\<open>next\<close> until the generator stops
  or raises. The result holds the events of the run, the items delivered, and how
  the run ended. A generator that never ends gives \<open>None\<close>.
\<close>

datatype outcome = Returned | Failed error

definition deliver ::
  "'e list \<Rightarrow> 'x \<Rightarrow> 'e list \<times> 'x list \<times> 'c \<Rightarrow> ('e list \<times> 'x list \<times> 'c) option" where
  "deliver es x y = (case y of (es', xs, c) \<Rightarrow> Some (es @ es', x # xs, c))"

partial_function (option) drain ::
  "('s \<Rightarrow> ('e list \<times> 'x pulled \<times> 's) option) \<Rightarrow> 's \<Rightarrow>
   ('e list \<times> 'x list \<times> outcome) option" where
  "drain nxt st =
     (case nxt st of
        None \<Rightarrow> None
      | Some (es, r, st') \<Rightarrow>
          (case r of
             Item x \<Rightarrow> Option.bind (drain nxt st') (deliver es x)
           | StopIteration \<Rightarrow> Some (es, [], Returned)
           | Raised e \<Rightarrow> Some (es, [], Failed e)))"

text \<open>A consumer that calls \<^verbatim>\<open>next\<close> exactly \<open>n\<close> times and then stops pulling.\<close>

fun pulls ::
  "('s \<Rightarrow> ('e list \<times> 'r \<times> 's) option) \<Rightarrow> nat \<Rightarrow> 's \<Rightarrow> ('e list \<times> 'r list \<times> 's) option" where
  "pulls nxt 0 st = Some ([], [], st)"
| "pulls nxt (Suc n) st =
     (case nxt st of
        None \<Rightarrow> None
      | Some (es, r, st') \<Rightarrow> Option.bind (pulls nxt n st') (deliver es r))"

text \<open>
  \<^verbatim>\<open>list_all\<close> (line 128): \<^verbatim>\<open>list(self.yield_all(**kwargs))\<close>. Python binds the
  keywords \<^verbatim>\<open>progress_bar\<close> and \<^verbatim>\<open>desc\<close> of \<^verbatim>\<open>**kwargs\<close> to the parameters of
  \<^verbatim>\<open>yield_all\<close>, so they are arguments of their own here. An exception of the
  generator leaves \<^verbatim>\<open>list\<close> without a list.
\<close>

definition list_all ::
  "('i, 'req, 'item) wrapper \<Rightarrow> bool \<Rightarrow> string \<Rightarrow> 'i kwargs \<Rightarrow>
   (('i, 'req, 'item) event list \<times> (error + 'item list)) option" where
  "list_all self progress_bar desc kwargs =
     (case drain (yield_all self) (YEntry progress_bar desc kwargs) of
        None \<Rightarrow> None
      | Some (es, xs, Returned) \<Rightarrow> Some (es, Inr xs)
      | Some (es, xs, Failed e) \<Rightarrow> Some (es, Inl e))"

section \<open>Vocabulary of the properties\<close>

subsection \<open>Page sequences served by a resource\<close>

text \<open>
  A page is served when line 62 can size the bar for it: the total of the page
  divided by 50 is a float. \<open>bar_total\<close> is that size.
\<close>

definition served :: "'item page \<Rightarrow> bool" where
  "served res = (case total_pages (totalResults res) of Inl e \<Rightarrow> False | Inr n \<Rightarrow> True)"

definition bar_total :: "'item page \<Rightarrow> int" where
  "bar_total res = (case total_pages (totalResults res) of Inl e \<Rightarrow> 0 | Inr n \<Rightarrow> n)"

text \<open>
  \<open>chain r cur steps\<close>: starting with the request \<open>cur\<close>, the resource answers as
  \<open>steps\<close> says. A step \<open>(req, res, nxt)\<close> is one page: \<^verbatim>\<open>req.execute()\<close> returns
  the served page \<open>res\<close> and \<^verbatim>\<open>list_next(req, res)\<close> returns \<open>nxt\<close>, which is the
  request of the next step. Since a step needs a request, only the last step can
  have \<open>nxt = None\<close>. \<open>chain_end\<close> is the request left after the steps.
\<close>

fun chain ::
  "('i, 'req, 'item) resource \<Rightarrow> 'req option \<Rightarrow>
   ('req \<times> 'item page \<times> 'req option) list \<Rightarrow> bool" where
  "chain r cur [] = True"
| "chain r cur ((req, res, nxt) # rest) =
     (cur = Some req \<and> req_execute r req = Inr res \<and> served res \<and>
      call_list_next r req res = Inr nxt \<and> chain r nxt rest)"

fun chain_end ::
  "'req option \<Rightarrow> ('req \<times> 'item page \<times> 'req option) list \<Rightarrow> 'req option" where
  "chain_end cur [] = cur"
| "chain_end cur ((req, res, nxt) # rest) = chain_end nxt rest"

text \<open>
  The events of fetching one page (lines 60 to 63), of working through a whole page
  sequence (with the \<^verbatim>\<open>list_next\<close> of line 68 after each page), and the items of
  the sequence in page order.
\<close>

definition page_events ::
  "bool \<Rightarrow> string \<Rightarrow> 'req \<Rightarrow> 'item page \<Rightarrow> ('i, 'req, 'item) event list" where
  "page_events pb d req res =
     CallExecute req # (if pb then [PageBar d (bar_total res)] else [])"

definition chain_events ::
  "bool \<Rightarrow> string \<Rightarrow> ('req \<times> 'item page \<times> 'req option) list \<Rightarrow>
   ('i, 'req, 'item) event list" where
  "chain_events pb d steps =
     concat (map (\<lambda>(req, res, nxt). page_events pb d req res @ [CallListNext req res]) steps)"

definition chain_items :: "('req \<times> 'item page \<times> 'req option) list \<Rightarrow> 'item list" where
  "chain_items steps = concat (map (\<lambda>(req, res, nxt). items res) steps)"

text \<open>Putting events and results in front of what a later part of a run gives.\<close>

definition prepend ::
  "'e list \<Rightarrow> 'x list \<Rightarrow> 'e list \<times> 'x list \<times> 'c \<Rightarrow> ('e list \<times> 'x list \<times> 'c) option" where
  "prepend es xs y = (case y of (es', xs', c) \<Rightarrow> Some (es @ es', xs @ xs', c))"

text \<open>What the handler of lines 70 to 74 logs before it raises \<open>e\<close> again.\<close>

definition logged :: "error \<Rightarrow> ('i, 'req, 'item) event list" where
  "logged e = (case e of HttpError s \<Rightarrow> [LogError e] | _ \<Rightarrow> [])"

text \<open>The last thing a consumer sees of a run that ended with the given outcome.\<close>

definition ended :: "outcome \<Rightarrow> 'x pulled" where
  "ended out = (case out of Returned \<Rightarrow> StopIteration | Failed e \<Rightarrow> Raised e)"

subsection \<open>Keyword arguments and batches\<close>

text \<open>
  \<open>unsplit\<close>: the test of line 93 is false, so \<^verbatim>\<open>yield_all\<close> takes the branch of
  line 109. \<open>with_maxResults\<close> is the update of line 55. \<open>batch_kwargs\<close> is the
  argument list of line 107 for one slice of identifiers, and \<open>id_batches\<close> the
  slices \<^verbatim>\<open>ids[i : i + 50]\<close> for the indices of \<^verbatim>\<open>range(0, len(ids), 50)\<close>.
\<close>

definition unsplit :: "'i kwargs \<Rightarrow> bool" where
  "unsplit kwargs =
     (case map_of kwargs ''id'' of
        None \<Rightarrow> True
      | Some v \<Rightarrow> (case py_len v of Inl e \<Rightarrow> False | Inr n \<Rightarrow> n \<le> 50))"

definition with_maxResults :: "'i kwargs \<Rightarrow> 'i kwargs" where
  "with_maxResults kwargs = AList.update ''maxResults'' (PInt 50) kwargs"

definition batch_kwargs :: "'i kwargs \<Rightarrow> 'i list \<Rightarrow> 'i kwargs" where
  "batch_kwargs kwargs batch = AList.delete ''id'' kwargs @ [(''id'', PList batch)]"

definition id_batches :: "'i list \<Rightarrow> 'i list list" where
  "id_batches ids = map (\<lambda>i. take 50 (drop i ids)) (py_range (length ids) 50)"

text \<open>
  The keyword arguments of a \<^verbatim>\<open>list\<close> call without the two fields the wrapper
  writes, to compare them with the caller's.
\<close>

definition frame :: "'i kwargs \<Rightarrow> 'i kwargs" where
  "frame kwargs = AList.delete ''id'' (AList.delete ''maxResults'' kwargs)"

subsection \<open>Reading events and program points\<close>

text \<open>
  The \<^verbatim>\<open>progress_bar\<close> flag of a program point, the progress events among the
  events, the keyword arguments a generator that has not started will pass to
  \<^verbatim>\<open>list\<close>, and the keyword arguments of the \<^verbatim>\<open>list\<close> calls among the events.
\<close>

fun gen_bar :: "('i, 'req, 'item) gen \<Rightarrow> bool" where
  "gen_bar (Entry pb d kwargs) = pb"
| "gen_bar (While pb d req) = pb"
| "gen_bar (For pb d req res xs) = pb"
| "gen_bar Exit = False"

fun is_progress :: "('i, 'req, 'item) event \<Rightarrow> bool" where
  "is_progress (PageBar d n) = True"
| "is_progress (BatchBar d n) = True"
| "is_progress BatchStep = True"
| "is_progress ev = False"

fun entry_kwargs :: "('i, 'req, 'item) gen \<Rightarrow> 'i kwargs option" where
  "entry_kwargs (Entry pb d kwargs) = Some kwargs"
| "entry_kwargs g = None"

fun list_calls :: "('i, 'req, 'item) event list \<Rightarrow> 'i kwargs list" where
  "list_calls [] = []"
| "list_calls (CallList kwargs # es) = kwargs # list_calls es"
| "list_calls (ev # es) = list_calls es"

text \<open>
  The \<^verbatim>\<open>list\<close> calls of a complete run of \<^verbatim>\<open>yield_all\<close>, in order: one call
  with the caller's arguments on the unsplit path, one call per slice otherwise,
  none when the test of line 93 raises. \<open>slice_calls\<close> are the calls for the
  indices still to come, and \<open>pending\<close> the calls a program point of
  \<^verbatim>\<open>yield_all\<close> has still to make if it runs to the end.
\<close>

fun slice_calls :: "'i kwargs \<Rightarrow> 'i pyval \<Rightarrow> nat list \<Rightarrow> 'i kwargs list" where
  "slice_calls kw ids [] = []"
| "slice_calls kw ids (i # rest) =
     (case py_slice ids i (i + 50) of
        Inl e \<Rightarrow> []
      | Inr batch \<Rightarrow> with_maxResults (kw @ [(''id'', batch)]) # slice_calls kw ids rest)"

definition expected_calls :: "'i kwargs \<Rightarrow> 'i kwargs list" where
  "expected_calls kwargs =
     (case map_of kwargs ''id'' of
        None \<Rightarrow> [with_maxResults kwargs]
      | Some ids \<Rightarrow>
          (case py_len ids of
             Inl e \<Rightarrow> []
           | Inr n \<Rightarrow>
               if 50 < n then slice_calls (AList.delete ''id'' kwargs) ids (py_range n 50)
               else [with_maxResults kwargs]))"

definition entry_calls :: "('i, 'req, 'item) gen \<Rightarrow> 'i kwargs list" where
  "entry_calls g = (case entry_kwargs g of None \<Rightarrow> [] | Some kw \<Rightarrow> [with_maxResults kw])"

fun pending :: "('i, 'req, 'item) ygen \<Rightarrow> 'i kwargs list" where
  "pending (YEntry pb d kwargs) = expected_calls kwargs"
| "pending (YElse g) = entry_calls g"
| "pending (YForHead pb d kw ids idxs) = slice_calls kw ids idxs"
| "pending (YFrom pb d kw ids idxs g) = entry_calls g @ slice_calls kw ids idxs"
| "pending YExit = []"

text \<open>
  The program points of \<^verbatim>\<open>yield_all\<close> on the split path whose inner generator
  runs with its bar disabled.
\<close>

fun batch_quiet :: "('i, 'req, 'item) ygen \<Rightarrow> bool" where
  "batch_quiet (YForHead pb d kw ids idxs) = True"
| "batch_quiet (YFrom pb d kw ids idxs g) = (\<not> gen_bar g)"
| "batch_quiet YExit = True"
| "batch_quiet st = False"

subsection \<open>Two resources to run the wrapper on\<close>

text \<open>
  \<open>mock first second\<close> answers every \<^verbatim>\<open>list\<close> call with request 0, whose
  \<^verbatim>\<open>execute\<close> gives \<open>first\<close> and whose successor is request 1, whose
  \<^verbatim>\<open>execute\<close> gives \<open>second\<close> and which has no successor. \<open>echo\<close> answers a
  \<^verbatim>\<open>list\<close> call with a request for the identifiers of \<^verbatim>\<open>id\<close>, served as a
  single page of total 50 with one item per identifier.
\<close>

definition mock ::
  "error + string page \<Rightarrow> error + string page \<Rightarrow> (nat, nat, string) resource" where
  "mock first second =
     \<lparr> attr_list = Some (Callable (\<lambda>kwargs. Inr 0)),
       attr_list_next = Some (Callable (\<lambda>req res. Inr (if req = 0 then Some 1 else None))),
       req_execute = (\<lambda>req. if req = 0 then first else second) \<rparr>"

definition echo :: "(nat, nat list, nat) resource" where
  "echo =
     \<lparr> attr_list = Some (Callable (\<lambda>kwargs.
         case map_of kwargs ''id'' of
           Some (PList ids) \<Rightarrow> Inr ids
         | _ \<Rightarrow> Inl (HttpError 400))),
       attr_list_next = Some (Callable (\<lambda>req res. Inr None)),
       req_execute = (\<lambda>req. Inr (Page 50 req)) \<rparr>"

section \<open>Unfolding the generators\<close>

lemma priv_Exit: "yield_all_priv self Exit = Some ([], StopIteration, Exit)"
  by (subst yield_all_priv.simps) simp

lemma priv_While_None: "yield_all_priv self (While pb d None) = Some ([], StopIteration, Exit)"
  by (subst yield_all_priv.simps) simp

lemma priv_While_Some:
  "yield_all_priv self (While pb d (Some req)) =
     (case req_execute (resource_of self) req of
        Inl e \<Rightarrow> emit [CallExecute req] (except_HttpError e)
      | Inr res \<Rightarrow>
          (case total_pages (totalResults res) of
             Inl e \<Rightarrow> emit [CallExecute req] (except_HttpError e)
           | Inr n \<Rightarrow>
               Option.bind (yield_all_priv self (For pb d req res (items res)))
                 (emit (CallExecute req # (if pb then [PageBar d n] else [])))))"
  by (subst yield_all_priv.simps) simp

lemma priv_For_Cons:
  "yield_all_priv self (For pb d req res (x # xs)) = Some ([], Item x, For pb d req res xs)"
  by (subst yield_all_priv.simps) simp

lemma priv_For_Nil:
  "yield_all_priv self (For pb d req res []) =
     (case call_list_next (resource_of self) req res of
        Inl e \<Rightarrow> emit [CallListNext req res] (except_HttpError e)
      | Inr req' \<Rightarrow>
          Option.bind (yield_all_priv self (While pb d req')) (emit [CallListNext req res]))"
  by (subst yield_all_priv.simps) simp

lemma priv_Entry:
  "yield_all_priv self (Entry pb d kwargs) =
     (case call_list (resource_of self) (AList.update ''maxResults'' (PInt 50) kwargs) of
        Inl e \<Rightarrow> Some ([CallList (AList.update ''maxResults'' (PInt 50) kwargs)], Raised e, Exit)
      | Inr req \<Rightarrow>
          Option.bind (yield_all_priv self (While pb d (Some req)))
            (emit [CallList (AList.update ''maxResults'' (PInt 50) kwargs)]))"
  by (subst yield_all_priv.simps) (simp add: Let_def)


lemma drain_Stop: "nxt st = Some (es, StopIteration, st') \<Longrightarrow> drain nxt st = Some (es, [], Returned)"
  by (subst drain.simps) simp

lemma drain_Raised: "nxt st = Some (es, Raised e, st') \<Longrightarrow> drain nxt st = Some (es, [], Failed e)"
  by (subst drain.simps) simp

lemma drain_Item: "nxt st = Some (es, Item x, st') \<Longrightarrow> drain nxt st = Option.bind (drain nxt st') (deliver es x)"
  by (subst drain.simps) simp

lemma drain_None: "nxt st = None \<Longrightarrow> drain nxt st = None"
  by (subst drain.simps) simp

lemma drain_emit:
  assumes "nxt st = Option.bind (nxt st2) (emit es)"
  shows "drain nxt st = Option.bind (drain nxt st2) (emit es)"
proof (cases "nxt st2")
  case None
  then show ?thesis using assms by (simp add: drain_None)
next
  case (Some y)
  obtain es' r st' where y: "y = (es', r, st')" by (cases y)
  have 1: "nxt st = Some (es @ es', r, st')" using assms Some y by (simp add: emit_def)
  show ?thesis
  proof (cases r)
    case (Item x)
    show ?thesis using 1 Some y Item
      by (cases "drain nxt st'") (auto simp: drain_Item emit_def deliver_def)
  next
    case StopIteration
    then show ?thesis using 1 Some y by (simp add: drain_Stop emit_def)
  next
    case (Raised e)
    then show ?thesis using 1 Some y by (simp add: drain_Raised emit_def)
  qed
qed

lemma emit_prepend: "emit es = prepend es []"
  by (auto simp: emit_def prepend_def fun_eq_iff)

lemma deliver_prepend: "deliver es x = prepend es [x]"
  by (auto simp: deliver_def prepend_def fun_eq_iff)

lemma bind_prepend_prepend:
  "Option.bind (Option.bind m (prepend es xs)) (prepend es' xs') = Option.bind m (prepend (es' @ es) (xs' @ xs))"
  by (cases m) (auto simp: prepend_def)

lemma bind_prepend_Nil: "Option.bind m (prepend [] []) = m"
  by (cases m) (auto simp: prepend_def)

lemma priv_page:
  assumes "req_execute (resource_of self) req = Inr res" and "served res"
  shows "yield_all_priv self (While pb d (Some req)) =
     Option.bind (yield_all_priv self (For pb d req res (items res)))
       (emit (page_events pb d req res))"
  using assms
  by (auto simp: priv_While_Some served_def bar_total_def page_events_def split: sum.splits)

lemma drain_For:
  "drain (yield_all_priv self) (For pb d req res xs) =
   Option.bind (drain (yield_all_priv self) (For pb d req res [])) (prepend [] xs)"
proof (induction xs)
  case Nil
  show ?case by (simp add: bind_prepend_Nil)
next
  case (Cons x xs)
  have "drain (yield_all_priv self) (For pb d req res (x # xs)) =
        Option.bind (drain (yield_all_priv self) (For pb d req res xs)) (deliver [] x)"
    by (rule drain_Item) (rule priv_For_Cons)
  then show ?case
    by (simp only: Cons deliver_prepend bind_prepend_prepend append_Nil append_Cons)
qed

lemma drain_page:
  assumes "req_execute (resource_of self) req = Inr res" and "served res"
    and "call_list_next (resource_of self) req res = Inr nxt"
  shows "drain (yield_all_priv self) (While pb d (Some req)) =
         Option.bind (drain (yield_all_priv self) (While pb d nxt))
           (prepend (page_events pb d req res @ [CallListNext req res]) (items res))"
proof -
  have 1: "drain (yield_all_priv self) (While pb d (Some req)) =
        Option.bind (drain (yield_all_priv self) (For pb d req res (items res)))
          (emit (page_events pb d req res))"
    by (rule drain_emit) (rule priv_page [OF assms(1,2)])
  have 2: "drain (yield_all_priv self) (For pb d req res []) =
        Option.bind (drain (yield_all_priv self) (While pb d nxt)) (emit [CallListNext req res])"
    by (rule drain_emit) (simp add: priv_For_Nil assms)
  show ?thesis
    by (simp only: 1 drain_For [of self pb d req res "items res"] 2 emit_prepend
        bind_prepend_prepend append_Nil append_Nil2)
qed

lemma drain_chain:
  "chain (resource_of self) cur steps \<Longrightarrow>
   drain (yield_all_priv self) (While pb d cur) =
   Option.bind (drain (yield_all_priv self) (While pb d (chain_end cur steps)))
     (prepend (chain_events pb d steps) (chain_items steps))"
proof (induction steps arbitrary: cur)
  case Nil
  show ?case by (simp add: chain_events_def chain_items_def bind_prepend_Nil)
next
  case (Cons s steps)
  obtain req res nxt where s: "s = (req, res, nxt)" by (cases s)
  from Cons.prems s have cur: "cur = Some req"
    and ex: "req_execute (resource_of self) req = Inr res"
    and sv: "served res"
    and ln: "call_list_next (resource_of self) req res = Inr nxt"
    and rest: "chain (resource_of self) nxt steps" by simp_all
  have ev: "chain_events pb d (s # steps) =
      (page_events pb d req res @ [CallListNext req res]) @ chain_events pb d steps"
    by (simp add: chain_events_def s)
  have it: "chain_items (s # steps) = items res @ chain_items steps"
    by (simp add: chain_items_def s)
  show ?case
    unfolding cur drain_page [OF ex sv ln] Cons.IH [OF rest] bind_prepend_prepend ev it
    by (simp add: s)
qed

lemma drain_induct [consumes 1, case_names Stop Raised Item]:
  assumes run: "drain nxt st = Some y"
    and stop: "\<And>st es st'. nxt st = Some (es, StopIteration, st') \<Longrightarrow> P st (es, [], Returned)"
    and raised: "\<And>st es e st'. nxt st = Some (es, Raised e, st') \<Longrightarrow> P st (es, [], Failed e)"
    and item: "\<And>st es x st' es' xs out.
        nxt st = Some (es, Item x, st') \<Longrightarrow> drain nxt st' = Some (es', xs, out) \<Longrightarrow>
        P st' (es', xs, out) \<Longrightarrow> P st (es @ es', x # xs, out)"
  shows "P st y"
proof -
  define Q where "Q = (\<lambda>n s z. n = nxt \<longrightarrow> drain nxt s = Some z \<and> P s z)"
  have "Q nxt st y"
  proof (rule drain.raw_induct [where P = Q, OF _ run], goal_cases)
    case (1 drain' nxt'' st y)
    show ?case unfolding Q_def
    proof
      assume eq: "nxt'' = nxt"
      show "drain nxt st = Some y \<and> P st y"
      proof (cases "nxt st")
        case None
        with 1(2) eq show ?thesis by simp
      next
        case (Some t)
        obtain es r st' where t: "t = (es, r, st')" by (cases t)
        show ?thesis
        proof (cases r)
          case StopIteration
          with 1(2) eq Some t have "y = (es, [], Returned)" by simp
          with Some t StopIteration show ?thesis by (simp add: drain_Stop stop)
        next
          case (Raised e)
          with 1(2) eq Some t have "y = (es, [], Failed e)" by simp
          with Some t Raised show ?thesis by (simp add: drain_Raised raised)
        next
          case (Item x)
          with 1(2) eq Some t have b: "Option.bind (drain' nxt st') (deliver es x) = Some y" by simp
          then obtain y' where y': "drain' nxt st' = Some y'" and d: "deliver es x y' = Some y"
            by (cases "drain' nxt st'") auto
          obtain es' xs out where y'': "y' = (es', xs, out)" by (cases y')
          from 1(1) [OF y'] have ih: "drain nxt st' = Some y'" "P st' y'" by (simp_all add: Q_def)
          from d y'' have yv: "y = (es @ es', x # xs, out)" by (simp add: deliver_def)
          have nx: "nxt st = Some (es, Item x, st')" using Some t Item by simp
          have "drain nxt st = Some y"
            unfolding drain_Item [of nxt, OF nx] using ih(1) d by simp
          moreover have "P st y" unfolding yv using nx ih y'' by (auto intro: item)
          ultimately show ?thesis by simp
        qed
      qed
    qed
  qed
  then show ?thesis by (simp add: Q_def)
qed

lemma drain_YElse:
  assumes "drain (yield_all_priv self) g = Some y"
  shows "drain (yield_all self) (YElse g) = Some y"
  using assms
proof (induction rule: drain_induct)
  case (Stop st es st')
  then show ?case by (simp add: drain_Stop [where st' = YExit])
next
  case (Raised st es e st')
  then show ?case by (simp add: drain_Raised [where st' = YExit])
next
  case (Item st es x st' es' xs out)
  have "yield_all self (YElse st) = Some (es, Item x, YElse st')" using Item(1) by simp
  from drain_Item [of "yield_all self", OF this] Item(3) show ?case by (simp add: deliver_def)
qed

lemma drain_YFrom:
  assumes "drain (yield_all_priv self) g = Some y"
  shows "drain (yield_all self) (YFrom pb d kw ids rest g) =
     (case y of
        (es, xs, Returned) \<Rightarrow>
           Option.bind (drain (yield_all self) (YForHead pb d kw ids rest))
             (prepend (es @ batch_step pb) xs)
      | (es, xs, Failed e) \<Rightarrow> Some (es, xs, Failed e))"
  using assms
proof (induction rule: drain_induct)
  case (Stop st es st')
  have "yield_all self (YFrom pb d kw ids rest st) =
      Option.bind (yield_all self (YForHead pb d kw ids rest)) (emit (es @ batch_step pb))"
    using Stop by simp
  from drain_emit [of "yield_all self", OF this] show ?case by (simp add: emit_prepend)
next
  case (Raised st es e st')
  then show ?case by (simp add: drain_Raised [where st' = YExit])
next
  case (Item st es x st' es' xs out)
  have "yield_all self (YFrom pb d kw ids rest st) = Some (es, Item x, YFrom pb d kw ids rest st')"
    using Item(1) by simp
  from drain_Item [of "yield_all self", OF this] Item(3) show ?case
    by (cases out) (simp_all add: deliver_prepend bind_prepend_prepend del: bind_assoc, simp add: prepend_def)
qed

lemma pulls_emit:
  assumes "nxt st = Option.bind (nxt st2) (emit es)"
  shows "pulls nxt (Suc n) st = Option.bind (pulls nxt (Suc n) st2) (prepend es [])"
proof (cases "nxt st2")
  case None
  then show ?thesis using assms by simp
next
  case (Some y)
  obtain es' r st' where y: "y = (es', r, st')" by (cases y)
  have 1: "nxt st = Some (es @ es', r, st')" using assms Some y by (simp add: emit_def)
  show ?thesis using 1 Some y
    by (cases "pulls nxt n st'") (auto simp: deliver_def prepend_def)
qed

lemma pulls_Exit: "pulls (yield_all_priv self) n Exit = Some ([], replicate n StopIteration, Exit)"
  by (induction n) (simp_all add: priv_Exit deliver_def)

lemma pulls_YExit: "pulls (yield_all self) n YExit = Some ([], replicate n StopIteration, YExit)"
  by (induction n) (simp_all add: deliver_def)

lemma pulls_For_items:
  "pulls (yield_all_priv self) (length xs + n) (For pb d req res (xs @ ys)) =
   Option.bind (pulls (yield_all_priv self) n (For pb d req res ys)) (prepend [] (map Item xs))"
proof (induction xs)
  case Nil
  show ?case by (simp add: bind_prepend_Nil)
next
  case (Cons x xs)
  show ?case
    by (simp add: priv_For_Cons Cons deliver_prepend bind_prepend_prepend del: bind_assoc)
qed

lemma pulls_For_take:
  assumes "m \<le> length xs"
  shows "pulls (yield_all_priv self) m (For pb d req res xs) =
         Some ([], map Item (take m xs), For pb d req res (drop m xs))"
proof -
  have "pulls (yield_all_priv self) (length (take m xs) + 0) (For pb d req res (take m xs @ drop m xs)) =
     Option.bind (pulls (yield_all_priv self) 0 (For pb d req res (drop m xs))) (prepend [] (map Item (take m xs)))"
    by (rule pulls_For_items)
  then show ?thesis using assms by (simp add: prepend_def min_absorb2)
qed

lemma pulls_page:
  assumes "req_execute (resource_of self) req = Inr res" and "served res"
    and "call_list_next (resource_of self) req res = Inr nxt"
  shows "pulls (yield_all_priv self) (length (items res) + Suc n) (While pb d (Some req)) =
         Option.bind (pulls (yield_all_priv self) (Suc n) (While pb d nxt))
           (prepend (page_events pb d req res @ [CallListNext req res]) (map Item (items res)))"
proof -
  have 0: "length (items res) + Suc n = Suc (length (items res) + n)" by simp
  have 1: "pulls (yield_all_priv self) (length (items res) + Suc n) (While pb d (Some req)) =
        Option.bind (pulls (yield_all_priv self) (length (items res) + Suc n) (For pb d req res (items res)))
          (prepend (page_events pb d req res) [])"
    unfolding 0 by (rule pulls_emit) (rule priv_page [OF assms(1,2)])
  have 2: "pulls (yield_all_priv self) (Suc n) (For pb d req res []) =
        Option.bind (pulls (yield_all_priv self) (Suc n) (While pb d nxt)) (prepend [CallListNext req res] [])"
    by (rule pulls_emit) (simp add: priv_For_Nil assms)
  have 3: "pulls (yield_all_priv self) (length (items res) + Suc n) (For pb d req res (items res)) =
     Option.bind (pulls (yield_all_priv self) (Suc n) (For pb d req res [])) (prepend [] (map Item (items res)))"
    using pulls_For_items [of self "items res" "Suc n" pb d req res "[]"] by simp
  show ?thesis
    by (simp only: 1 3 2 bind_prepend_prepend append_Nil append_Nil2)
qed

lemma pulls_chain:
  "chain (resource_of self) cur steps \<Longrightarrow>
   pulls (yield_all_priv self) (length (chain_items steps) + Suc n) (While pb d cur) =
   Option.bind (pulls (yield_all_priv self) (Suc n) (While pb d (chain_end cur steps)))
     (prepend (chain_events pb d steps) (map Item (chain_items steps)))"
proof (induction steps arbitrary: cur)
  case Nil
  show ?case by (simp add: chain_events_def chain_items_def bind_prepend_Nil)
next
  case (Cons s steps)
  obtain req res nxt where s: "s = (req, res, nxt)" by (cases s)
  from Cons.prems s have cur: "cur = Some req"
    and ex: "req_execute (resource_of self) req = Inr res"
    and sv: "served res"
    and ln: "call_list_next (resource_of self) req res = Inr nxt"
    and rest: "chain (resource_of self) nxt steps" by simp_all
  have ev: "chain_events pb d ((req, res, nxt) # steps) =
      (page_events pb d req res @ [CallListNext req res]) @ chain_events pb d steps"
    by (simp add: chain_events_def)
  have it: "chain_items ((req, res, nxt) # steps) = items res @ chain_items steps"
    by (simp add: chain_items_def)
  have len: "length (chain_items ((req, res, nxt) # steps)) + Suc n =
      length (items res) + Suc (length (chain_items steps) + n)"
    by (simp add: it)
  have ih: "pulls (yield_all_priv self) (Suc (length (chain_items steps) + n)) (While pb d nxt) =
    Option.bind (pulls (yield_all_priv self) (Suc n) (While pb d (chain_end nxt steps)))
     (prepend (chain_events pb d steps) (map Item (chain_items steps)))"
    using Cons.IH [OF rest] by simp
  have "pulls (yield_all_priv self) (length (chain_items ((req, res, nxt) # steps)) + Suc n) (While pb d cur) =
      pulls (yield_all_priv self) (length (items res) + Suc (length (chain_items steps) + n))
        (While pb d (Some req))"
    by (simp only: len cur)
  also have "\<dots> =
      Option.bind (pulls (yield_all_priv self) (Suc (length (chain_items steps) + n)) (While pb d nxt))
        (prepend (page_events pb d req res @ [CallListNext req res]) (map Item (items res)))"
    by (rule pulls_page [OF ex sv ln])
  also have "\<dots> =
      Option.bind (pulls (yield_all_priv self) (Suc n) (While pb d (chain_end nxt steps)))
        (prepend ((page_events pb d req res @ [CallListNext req res]) @ chain_events pb d steps)
           (map Item (items res) @ map Item (chain_items steps)))"
    by (simp only: ih bind_prepend_prepend)
  finally show ?case
    unfolding s by (simp only: ev it chain_end.simps map_append)
qed

lemma yield_all_unsplit:
  "unsplit kwargs \<Longrightarrow> yield_all self (YEntry pb d kwargs) = yield_all self (YElse (Entry pb d kwargs))"
  by (auto simp: unsplit_def split: option.splits sum.splits)

lemma drain_Entry:
  assumes "call_list (resource_of self) (with_maxResults kwargs) = Inr req"
  shows "drain (yield_all_priv self) (Entry pb d kwargs) =
     Option.bind (drain (yield_all_priv self) (While pb d (Some req)))
       (prepend [CallList (with_maxResults kwargs)] [])"
proof -
  have "yield_all_priv self (Entry pb d kwargs) =
     Option.bind (yield_all_priv self (While pb d (Some req))) (emit [CallList (with_maxResults kwargs)])"
    using assms by (simp add: priv_Entry with_maxResults_def)
  from drain_emit [of "yield_all_priv self", OF this] show ?thesis by (simp only: emit_prepend)
qed

lemma drain_unsplit:
  assumes "unsplit kwargs" and "drain (yield_all_priv self) (Entry pb d kwargs) = Some y"
  shows "drain (yield_all self) (YEntry pb d kwargs) = Some y"
proof -
  have "drain (yield_all self) (YEntry pb d kwargs) = drain (yield_all self) (YElse (Entry pb d kwargs))"
    by (subst drain.simps, subst (2) drain.simps) (simp only: yield_all_unsplit [OF assms(1)])
  then show ?thesis using drain_YElse [OF assms(2)] by simp
qed

lemma drain_While_None: "drain (yield_all_priv self) (While pb d None) = Some ([], [], Returned)"
  by (rule drain_Stop) (rule priv_While_None)


lemma pulls_Entry:
  assumes "call_list (resource_of self) (with_maxResults kwargs) = Inr req"
  shows "pulls (yield_all_priv self) (Suc n) (Entry pb d kwargs) =
     Option.bind (pulls (yield_all_priv self) (Suc n) (While pb d (Some req)))
       (prepend [CallList (with_maxResults kwargs)] [])"
  by (rule pulls_emit) (use assms in \<open>simp add: priv_Entry with_maxResults_def\<close>)


lemma except_other:
  "e \<noteq> HttpError 404 \<Longrightarrow> except_HttpError e = (logged e, Raised e, Exit)"
  by (cases e) (auto simp: logged_def)


lemma drain_pulls:
  assumes "drain nxt st = Some y"
  shows "\<exists>st'. pulls nxt (Suc (length (fst (snd y)))) st =
           Some (fst y, map Item (fst (snd y)) @ [ended (snd (snd y))], st')"
  using assms
proof (induction rule: drain_induct)
  case (Stop st es st')
  then show ?case by (simp add: deliver_def ended_def)
next
  case (Raised st es e st')
  then show ?case by (simp add: deliver_def ended_def)
next
  case (Item st es x st' es' xs out)
  from Item(3) obtain st'' where
    "pulls nxt (Suc (length xs)) st' = Some (es', map Item xs @ [ended out], st'')"
    by auto
  with Item(1) have "pulls nxt (Suc (Suc (length xs))) st =
      Some (es @ es', Item x # map Item xs @ [ended out], st'')"
    by (subst pulls.simps(2)) (simp add: deliver_def del: pulls.simps)
  then show ?case by (simp del: pulls.simps)
qed


lemma drain_cong: "nxt st = nxt st2 \<Longrightarrow> drain nxt st = drain nxt st2"
  by (subst drain.simps, subst (2) drain.simps) simp

lemma pulls_cong: "nxt st = nxt st2 \<Longrightarrow> pulls nxt (Suc n) st = pulls nxt (Suc n) st2"
  by simp

lemma yield_all_YForHead_Cons:
  "yield_all self (YForHead pb d kw (PList ids) (i # rest)) =
   yield_all self (YFrom pb d kw (PList ids) rest (Entry False [] (kw @ [(''id'', PList (take 50 (drop i ids)))])))"
  by simp

lemma yield_all_split:
  assumes "map_of kwargs ''id'' = Some (PList ids)" and "50 < length ids"
  shows "yield_all self (YEntry pb d kwargs) =
     Option.bind
       (yield_all self (YForHead pb d (AList.delete ''id'' kwargs) (PList ids) (py_range (length ids) 50)))
       (emit (batch_bar pb d (length (py_range (length ids) 50))))"
  using assms by simp

lemma drain_YForHead:
  assumes "\<forall>i\<in>set idxs. drain (yield_all_priv self)
              (Entry False [] (kw @ [(''id'', PList (take 50 (drop i ids)))])) = Some (E i, X i, Returned)"
  shows "drain (yield_all self) (YForHead pb d kw (PList ids) idxs) =
     Some (concat (map (\<lambda>i. E i @ batch_step pb) idxs), concat (map X idxs), Returned)"
  using assms
proof (induction idxs)
  case Nil
  show ?case by (simp add: drain_Stop [where st' = YExit])
next
  case (Cons i rest)
  have sub: "drain (yield_all_priv self)
      (Entry False [] (kw @ [(''id'', PList (take 50 (drop i ids)))])) = Some (E i, X i, Returned)"
    using Cons.prems by simp
  have ih: "drain (yield_all self) (YForHead pb d kw (PList ids) rest) =
     Some (concat (map (\<lambda>i. E i @ batch_step pb) rest), concat (map X rest), Returned)"
    using Cons by simp
  have "drain (yield_all self) (YForHead pb d kw (PList ids) (i # rest)) =
      drain (yield_all self) (YFrom pb d kw (PList ids) rest
        (Entry False [] (kw @ [(''id'', PList (take 50 (drop i ids)))])))"
    by (rule drain_cong) (rule yield_all_YForHead_Cons)
  also have "\<dots> = Option.bind (drain (yield_all self) (YForHead pb d kw (PList ids) rest))
             (prepend (E i @ batch_step pb) (X i))"
    using drain_YFrom [OF sub, of pb d kw "PList ids" rest] by simp
  finally show ?case by (simp add: ih prepend_def)
qed

lemma drain_split:
  assumes "map_of kwargs ''id'' = Some (PList ids)" and "50 < length ids"
    and "\<forall>i\<in>set (py_range (length ids) 50). drain (yield_all_priv self)
              (Entry False [] (batch_kwargs kwargs (take 50 (drop i ids)))) = Some (E i, X i, Returned)"
  shows "drain (yield_all self) (YEntry pb d kwargs) =
     Some (batch_bar pb d (length (py_range (length ids) 50)) @
             concat (map (\<lambda>i. E i @ batch_step pb) (py_range (length ids) 50)),
           concat (map X (py_range (length ids) 50)), Returned)"
proof -
  have "drain (yield_all self) (YEntry pb d kwargs) =
     Option.bind
       (drain (yield_all self) (YForHead pb d (AList.delete ''id'' kwargs) (PList ids) (py_range (length ids) 50)))
       (emit (batch_bar pb d (length (py_range (length ids) 50))))"
    by (rule drain_emit) (rule yield_all_split [OF assms(1,2)])
  also have "drain (yield_all self) (YForHead pb d (AList.delete ''id'' kwargs) (PList ids) (py_range (length ids) 50)) =
     Some (concat (map (\<lambda>i. E i @ batch_step pb) (py_range (length ids) 50)),
           concat (map X (py_range (length ids) 50)), Returned)"
    by (rule drain_YForHead) (use assms(3) in \<open>simp add: batch_kwargs_def\<close>)
  finally show ?thesis by (simp add: emit_def)
qed

lemma concat_slices:
  "concat (map (\<lambda>k. take s (drop (k * s) xs)) [0 ..< m]) = take (m * s) xs"
proof (induction m)
  case 0
  show ?case by simp
next
  case (Suc m)
  have "take (m * s) xs @ take s (drop (m * s) xs) = take (m * s + s) xs"
    by (simp add: take_add)
  then show ?case by (simp add: Suc add.commute)
qed

lemma length_py_range: "length (py_range n 50) = (n + 49) div 50"
  by (simp add: py_range_def)

lemma ceil50:
  fixes n :: nat
  obtains r where "n + 49 = (n + 49) div 50 * 50 + r" and "r < 50"
proof
  show "n + 49 = (n + 49) div 50 * 50 + (n + 49) mod 50" by simp
  show "(n + 49) mod 50 < 50" by simp
qed

lemma concat_id_batches: "concat (id_batches ids) = ids"
proof -
  obtain r where "length ids + 49 = (length ids + 49) div 50 * 50 + r" and "r < 50"
    by (rule ceil50)
  then have "length ids \<le> ((length ids + 49) div 50) * 50" by linarith
  moreover have "concat (id_batches ids) = take ((length ids + 49) div 50 * 50) ids"
    unfolding id_batches_def py_range_def map_map comp_def
    using concat_slices [of 50 ids "(length ids + 49) div 50"] by (simp add: add.commute)
  ultimately show ?thesis by simp
qed

lemma length_id_batches: "length (id_batches ids) = (length ids + 49) div 50"
  by (simp add: id_batches_def length_py_range)

lemma nth_id_batches:
  assumes "k < (length ids + 49) div 50"
  shows "id_batches ids ! k = take 50 (drop (k * 50) ids)"
  using assms by (simp add: id_batches_def py_range_def)

lemma length_nth_id_batches:
  assumes "k < (length ids + 49) div 50"
  shows "length (id_batches ids ! k) =
     (if Suc k < (length ids + 49) div 50 then 50 else length ids - k * 50)"
    and "0 < length (id_batches ids ! k)" and "length (id_batches ids ! k) \<le> 50"
proof -
  define m where "m = (length ids + 49) div 50"
  obtain r where r: "length ids + 49 = m * 50 + r" "r < 50"
    unfolding m_def by (rule ceil50)
  have k: "k < m" using assms by (simp add: m_def)
  have len: "length (id_batches ids ! k) = min (length ids - k * 50) 50"
    using assms by (simp add: nth_id_batches)
  have 1: "50 \<le> length ids - k * 50" if "Suc k < m"
  proof -
    from that have "k * 50 + 100 \<le> m * 50" by arith
    with r show ?thesis by arith
  qed
  have 2: "length ids - k * 50 \<le> 50" if "\<not> Suc k < m"
  proof -
    from that k have "m = k + 1" by simp
    with r show ?thesis by simp
  qed
  have 3: "0 < length ids - k * 50"
  proof -
    from k have "k * 50 + 50 \<le> m * 50" by arith
    with r show ?thesis by arith
  qed
  show "length (id_batches ids ! k) =
     (if Suc k < (length ids + 49) div 50 then 50 else length ids - k * 50)"
    using len 1 2 by (auto simp: min_def m_def)
  show "0 < length (id_batches ids ! k)" using len 3 by simp
  show "length (id_batches ids ! k) \<le> 50" using len by simp
qed

lemma drain_pages:
  assumes "call_list (resource_of self) (with_maxResults kwargs) = Inr req"
    and "chain (resource_of self) (Some req) steps"
    and "chain_end (Some req) steps = None"
  shows "drain (yield_all_priv self) (Entry pb d kwargs) =
           Some (CallList (with_maxResults kwargs) # chain_events pb d steps,
                 chain_items steps, Returned)"
proof -
  have "drain (yield_all_priv self) (While pb d (Some req)) =
        Some (chain_events pb d steps, chain_items steps, Returned)"
    using drain_chain [OF assms(2), of pb d] assms(3)
    by (simp add: drain_While_None prepend_def)
  then show ?thesis
    by (simp add: drain_Entry [OF assms(1)] prepend_def)
qed

lemma map_of_batch_kwargs:
  "map_of (with_maxResults (batch_kwargs kwargs batch)) ''id'' = Some (PList batch)"
  by (simp add: with_maxResults_def batch_kwargs_def update_conv' map_add_def delete_conv')

lemma bit_length_eq:
  "2 ^ k \<le> n \<Longrightarrow> n < 2 ^ Suc k \<Longrightarrow> bit_length n = Suc k"
proof (induction k arbitrary: n)
  case 0
  then have "n = 1" by simp
  then show ?case by (simp add: bit_length.simps)
next
  case (Suc k)
  from Suc.prems have "2 ^ k \<le> n div 2" and "n div 2 < 2 ^ Suc k" by simp_all
  from Suc.IH [OF this] Suc.prems show ?case
    by (subst bit_length.simps) auto
qed

lemma total_pages_rounds: "total_pages (50 * 2 ^ 48 + 1) = Inr (2 ^ 48)"
proof -
  have "bit_length 14073748835532801 = Suc 53"
    by (rule bit_length_eq) simp_all
  then show ?thesis
    by (simp add: total_pages_def true_div_50_def round_half_even_def ceil_float_def Let_def)
qed

lemma total_pages_overflow: "total_pages (10 ^ 310) = Inl OverflowError"
proof -
  have "bit_length (10 ^ 310) = Suc 1029"
    by (rule bit_length_eq) simp_all
  then show ?thesis
    by (simp add: total_pages_def true_div_50_def round_half_even_def Let_def nat_power_eq)
qed

lemma total_pages_small: "total_pages 3 = Inr 1" "total_pages 50 = Inr 1" "total_pages 1 = Inr 1"
  by code_simp+

lemma served_small [simp]: "served (Page 3 xs)" "served (Page 50 xs)" "served (Page 1 xs)"
  by (simp_all add: served_def total_pages_small)

lemma bar_total_small [simp]:
  "bar_total (Page 3 xs) = 1" "bar_total (Page 50 xs) = 1" "bar_total (Page 1 xs) = 1"
  by (simp_all add: bar_total_def total_pages_small)

lemma echo_batch:
  "drain (yield_all_priv (Wrapper echo)) (Entry False [] (batch_kwargs kwargs batch)) =
   Some ([CallList (with_maxResults (batch_kwargs kwargs batch)), CallExecute batch,
          CallListNext batch (Page 50 batch)], batch, Returned)"
proof -
  have "drain (yield_all_priv (Wrapper echo)) (Entry False [] (batch_kwargs kwargs batch)) =
     Some (CallList (with_maxResults (batch_kwargs kwargs batch)) #
             chain_events False [] [(batch, Page 50 batch, None)],
           chain_items [(batch, Page 50 batch, None)], Returned)"
    by (rule drain_pages)
      (simp_all add: call_list_def call_list_next_def echo_def map_of_batch_kwargs)
  then show ?thesis by (simp add: chain_events_def chain_items_def page_events_def)
qed

lemma list_calls_append: "list_calls (es @ es') = list_calls es @ list_calls es'"
  by (induction es rule: list_calls.induct) simp_all

lemma except_HttpError_facts:
  "except_HttpError e = (es, r, g) \<Longrightarrow>
     list_calls es = [] \<and> g = Exit \<and> (\<forall>ev\<in>set es. \<not> is_progress ev)"
  by (cases e) (auto split: if_splits)

lemma priv_step:
  fixes self :: "('i, 'req, 'item) wrapper"
  assumes "yield_all_priv self g = Some y"
  shows "list_calls (fst y) = (case entry_kwargs g of None \<Rightarrow> [] | Some kw \<Rightarrow> [with_maxResults kw]) \<and>
         entry_kwargs (snd (snd y)) = None \<and>
         (\<not> gen_bar g \<longrightarrow> (\<forall>ev\<in>set (fst y). \<not> is_progress ev) \<and> \<not> gen_bar (snd (snd y)))"
proof -
  define Q where "Q = (\<lambda>(s :: ('i, 'req, 'item) wrapper) (g :: ('i, 'req, 'item) gen)
      (y :: ('i, 'req, 'item) event list \<times> 'item pulled \<times> ('i, 'req, 'item) gen).
      list_calls (fst y) = (case entry_kwargs g of None \<Rightarrow> [] | Some kw \<Rightarrow> [with_maxResults kw]) \<and>
      entry_kwargs (snd (snd y)) = None \<and>
      (\<not> gen_bar g \<longrightarrow> (\<forall>ev\<in>set (fst y). \<not> is_progress ev) \<and> \<not> gen_bar (snd (snd y))))"
  have "Q self g y"
  proof (rule yield_all_priv.raw_induct [where P = Q, OF _ assms], goal_cases)
    case (1 rec self g y)
    note ih = 1(1) and eq = 1(2)
    show ?case
    proof (cases g)
      case (Entry pb d kwargs)
      show ?thesis
      proof (cases "call_list (resource_of self) (with_maxResults kwargs)")
        case (Inl e)
        with eq Entry show ?thesis by (auto simp: Q_def with_maxResults_def Let_def)
      next
        case (Inr req)
        with eq Entry obtain y' where y': "rec self (While pb d (Some req)) = Some y'"
          and y: "emit [CallList (with_maxResults kwargs)] y' = Some y"
          by (auto simp: with_maxResults_def Let_def split: Option.bind_splits)
        from ih [OF y'] y Entry show ?thesis
          by (cases y') (auto simp: Q_def emit_def)
      qed
    next
      case (While pb d cur)
      show ?thesis
      proof (cases cur)
        case None
        with eq While show ?thesis by (auto simp: Q_def)
      next
        case (Some req)
        show ?thesis
        proof (cases "req_execute (resource_of self) req")
          case (Inl e)
          with eq While Some have "emit [CallExecute req] (except_HttpError e) = Some y" by simp
          then show ?thesis using While Some
            by (cases "except_HttpError e :: ('i, 'req, 'item) event list \<times> 'item pulled \<times> ('i, 'req, 'item) gen")
              (auto simp: Q_def emit_def dest!: except_HttpError_facts)
        next
          case (Inr res)
          note ex = Inr
          show ?thesis
          proof (cases "total_pages (totalResults res)")
            case (Inl e)
            with eq While Some ex have "emit [CallExecute req] (except_HttpError e) = Some y"
              by simp
            then show ?thesis using While Some
              by (cases "except_HttpError e :: ('i, 'req, 'item) event list \<times> 'item pulled \<times> ('i, 'req, 'item) gen")
                (auto simp: Q_def emit_def dest!: except_HttpError_facts)
          next
            case (Inr n)
            with eq While Some ex obtain y' where
              y': "rec self (For pb d req res (items res)) = Some y'"
              and y: "emit (CallExecute req # (if pb then [PageBar d n] else [])) y' = Some y"
              by (auto split: Option.bind_splits)
            from ih [OF y'] y While Some show ?thesis
              by (cases y') (auto simp: Q_def emit_def)
          qed
        qed
      qed
    next
      case (For pb d req res xs)
      show ?thesis
      proof (cases xs)
        case (Cons x rest)
        with eq For show ?thesis by (auto simp: Q_def)
      next
        case Nil
        show ?thesis
        proof (cases "call_list_next (resource_of self) req res")
          case (Inl e)
          with eq For Nil have "emit [CallListNext req res] (except_HttpError e) = Some y" by simp
          then show ?thesis using For Nil
            by (cases "except_HttpError e :: ('i, 'req, 'item) event list \<times> 'item pulled \<times> ('i, 'req, 'item) gen")
              (auto simp: Q_def emit_def dest!: except_HttpError_facts)
        next
          case (Inr nxt)
          with eq For Nil obtain y' where y': "rec self (While pb d nxt) = Some y'"
            and y: "emit [CallListNext req res] y' = Some y"
            by (auto split: Option.bind_splits)
          from ih [OF y'] y For Nil show ?thesis
            by (cases y') (auto simp: Q_def emit_def)
        qed
      qed
    next
      case Exit
      with eq show ?thesis by (auto simp: Q_def)
    qed
  qed
  then show ?thesis by (simp add: Q_def)
qed

lemma list_calls_bars [simp]:
  "list_calls (batch_bar pb d n) = []" "list_calls (batch_step pb) = []"
  by (simp_all add: batch_bar_def batch_step_def)

lemma frame_with_maxResults: "frame (with_maxResults kwargs) = frame kwargs"
  by (simp add: frame_def with_maxResults_def delete_update_same)

lemma frame_batch:
  "frame (with_maxResults (AList.delete ''id'' kwargs @ [(''id'', batch)])) = frame kwargs"
proof -
  have "frame (AList.delete ''id'' kwargs @ [(''id'', batch)]) =
      AList.delete ''id'' (AList.delete ''maxResults'' (AList.delete ''id'' kwargs))"
    by (simp add: frame_def AList.delete_eq)
  also have "\<dots> = frame kwargs"
    by (simp add: frame_def delete_twist [of "''maxResults''" "''id''"] delete_idem)
  finally show ?thesis by (simp add: frame_with_maxResults)
qed

lemma map_of_with_maxResults:
  "map_of (with_maxResults kwargs) ''maxResults'' = Some (PInt 50)"
  "map_of (with_maxResults kwargs) ''id'' = map_of kwargs ''id''"
  by (simp_all add: with_maxResults_def update_conv')

lemma drain_no_progress:
  fixes self :: "('i, 'req, 'item) wrapper"
  assumes "drain (yield_all_priv self) g = Some y"
  shows "\<not> gen_bar g \<longrightarrow> filter is_progress (fst y) = []"
  using assms
proof (induction rule: drain_induct)
  case (Stop st es st')
  from priv_step [OF Stop] show ?case by (auto simp: filter_empty_conv)
next
  case (Raised st es e st')
  from priv_step [OF Raised] show ?case by (auto simp: filter_empty_conv)
next
  case (Item st es x st' es' xs out)
  from priv_step [OF Item(1)] Item(3) show ?case by (auto simp: filter_empty_conv)
qed

lemma filter_progress_batches:
  assumes "\<forall>b \<in> set bs. filter is_progress (E b) = []"
  shows "filter is_progress (concat (map (\<lambda>b. E b @ batch_step pb) bs)) =
         (if pb then replicate (length bs) BatchStep else [])"
  using assms by (induction bs) (auto simp: batch_step_def)

lemma pulls_into_page:
  assumes "call_list (resource_of self) (with_maxResults kwargs) = Inr req0"
    and "chain (resource_of self) (Some req0) steps"
    and "chain_end (Some req0) steps = Some req"
    and "req_execute (resource_of self) req = Inr res" and "served res"
    and "0 < m" and "m \<le> length (items res)"
  shows "pulls (yield_all_priv self) (length (chain_items steps) + m) (Entry pb d kwargs) =
     Some (CallList (with_maxResults kwargs) # chain_events pb d steps @ page_events pb d req res,
           map Item (chain_items steps @ take m (items res)),
           For pb d req res (drop m (items res)))"
proof -
  from assms(6) obtain n where m: "m = Suc n" by (cases m) auto
  have 1: "pulls (yield_all_priv self) (Suc n) (For pb d req res (items res)) =
      Some ([], map Item (take m (items res)), For pb d req res (drop m (items res)))"
    using pulls_For_take [OF assms(7), of self pb d req res] by (simp only: m)
  have "yield_all_priv self (While pb d (Some req)) =
      Option.bind (yield_all_priv self (For pb d req res (items res))) (emit (page_events pb d req res))"
    by (rule priv_page [OF assms(4,5)])
  from pulls_emit [of "yield_all_priv self", OF this, of n]
  have 2: "pulls (yield_all_priv self) (Suc n) (While pb d (Some req)) =
      Some (page_events pb d req res, map Item (take m (items res)),
            For pb d req res (drop m (items res)))"
    by (simp only: 1) (simp add: prepend_def)
  have 3: "pulls (yield_all_priv self) (length (chain_items steps) + Suc n) (While pb d (Some req0)) =
      Some (chain_events pb d steps @ page_events pb d req res,
            map Item (chain_items steps) @ map Item (take m (items res)),
            For pb d req res (drop m (items res)))"
    using pulls_chain [OF assms(2), of n pb d]
    by (simp only: assms(3) 2) (simp add: prepend_def)
  have "pulls (yield_all_priv self) (Suc (length (chain_items steps) + n)) (Entry pb d kwargs) =
     Option.bind (pulls (yield_all_priv self) (Suc (length (chain_items steps) + n)) (While pb d (Some req0)))
       (prepend [CallList (with_maxResults kwargs)] [])"
    by (rule pulls_Entry [OF assms(1)])
  moreover have "length (chain_items steps) + m = Suc (length (chain_items steps) + n)"
    by (simp add: m)
  moreover have "length (chain_items steps) + Suc n = Suc (length (chain_items steps) + n)"
    by simp
  ultimately show ?thesis using 3 by (simp add: prepend_def del: pulls.simps)
qed

lemma pulls_YElse_items:
  "pulls (yield_all_priv self) n g = Some (es, map Item xs, g') \<Longrightarrow>
   pulls (yield_all self) n (YElse g) = Some (es, map Item xs, YElse g')"
proof (induction n arbitrary: g es xs)
  case 0
  then show ?case by simp
next
  case (Suc n)
  from Suc.prems obtain es1 r g1 where p: "yield_all_priv self g = Some (es1, r, g1)"
    by (cases "yield_all_priv self g") auto
  with Suc.prems obtain es2 rs where q: "pulls (yield_all_priv self) n g1 = Some (es2, rs, g')"
    and e: "es = es1 @ es2" "map Item xs = r # rs"
    by (auto simp: deliver_def split: Option.bind_splits)
  from e(2) obtain x xs' where x: "r = Item x" "rs = map Item xs'" "xs = x # xs'"
    by (cases xs) auto
  from Suc.IH [OF q [unfolded x(2)]] p x e show ?case by (simp add: deliver_def)
qed

lemma pulls_YFrom_items:
  "pulls (yield_all_priv self) n g = Some (es, map Item xs, g') \<Longrightarrow>
   pulls (yield_all self) n (YFrom pb d kw ids rest g) =
     Some (es, map Item xs, YFrom pb d kw ids rest g')"
proof (induction n arbitrary: g es xs)
  case 0
  then show ?case by simp
next
  case (Suc n)
  from Suc.prems obtain es1 r g1 where p: "yield_all_priv self g = Some (es1, r, g1)"
    by (cases "yield_all_priv self g") auto
  with Suc.prems obtain es2 rs where q: "pulls (yield_all_priv self) n g1 = Some (es2, rs, g')"
    and e: "es = es1 @ es2" "map Item xs = r # rs"
    by (auto simp: deliver_def split: Option.bind_splits)
  from e(2) obtain x xs' where x: "r = Item x" "rs = map Item xs'" "xs = x # xs'"
    by (cases xs) auto
  from Suc.IH [OF q [unfolded x(2)]] p x e show ?case by (simp add: deliver_def)
qed

lemma pulls_step:
  "nxt st = Some (es, r, st') \<Longrightarrow>
   pulls nxt (Suc n) st = Option.bind (pulls nxt n st') (prepend es [r])"
  by (simp add: deliver_prepend)

lemma pulls_YFrom_drained:
  assumes "drain (yield_all_priv self) g = Some y"
  shows "snd (snd y) = Returned \<longrightarrow>
     pulls (yield_all self) (length (fst (snd y)) + Suc n) (YFrom pb d kw ids rest g) =
     Option.bind (pulls (yield_all self) (Suc n) (YForHead pb d kw ids rest))
       (prepend (fst y @ batch_step pb) (map Item (fst (snd y))))"
  using assms
proof (induction rule: drain_induct)
  case (Stop st es st')
  have "yield_all self (YFrom pb d kw ids rest st) =
      Option.bind (yield_all self (YForHead pb d kw ids rest)) (emit (es @ batch_step pb))"
    using Stop by simp
  from pulls_emit [of "yield_all self", OF this, of n] show ?case by simp
next
  case (Raised st es e st')
  show ?case by simp
next
  case (Item st es x st' es' xs out)
  have step: "yield_all self (YFrom pb d kw ids rest st) = Some (es, Item x, YFrom pb d kw ids rest st')"
    using Item(1) by simp
  show ?case
  proof
    assume "snd (snd (es @ es', x # xs, out)) = Returned"
    then have ih: "pulls (yield_all self) (length xs + Suc n) (YFrom pb d kw ids rest st') =
       Option.bind (pulls (yield_all self) (Suc n) (YForHead pb d kw ids rest))
        (prepend (es' @ batch_step pb) (map Item xs))"
      using Item(3) by simp
    have "pulls (yield_all self) (Suc (length xs + Suc n)) (YFrom pb d kw ids rest st) =
       Option.bind (pulls (yield_all self) (length xs + Suc n) (YFrom pb d kw ids rest st'))
         (prepend es [Item x])"
      by (rule pulls_step) (rule step)
    also have "\<dots> = Option.bind (pulls (yield_all self) (Suc n) (YForHead pb d kw ids rest))
        (prepend (es @ es' @ batch_step pb) (Item x # map Item xs))"
      by (simp only: ih bind_prepend_prepend append_Cons append_Nil)
    finally show "pulls (yield_all self) (length (fst (snd (es @ es', x # xs, out))) + Suc n)
        (YFrom pb d kw ids rest st) =
      Option.bind (pulls (yield_all self) (Suc n) (YForHead pb d kw ids rest))
        (prepend (fst (es @ es', x # xs, out) @ batch_step pb)
           (map Item (fst (snd (es @ es', x # xs, out)))))"
      by (simp del: pulls.simps)
  qed
qed

lemma pulls_YForHead_done:
  assumes "\<forall>i\<in>set done. drain (yield_all_priv self)
              (Entry False [] (kw @ [(''id'', PList (take 50 (drop i ids)))])) = Some (E i, X i, Returned)"
  shows "pulls (yield_all self) (length (concat (map X done)) + Suc n)
           (YForHead pb d kw (PList ids) (done @ rest)) =
     Option.bind (pulls (yield_all self) (Suc n) (YForHead pb d kw (PList ids) rest))
       (prepend (concat (map (\<lambda>i. E i @ batch_step pb) done)) (map Item (concat (map X done))))"
  using assms
proof (induction "done")
  case Nil
  show ?case by (simp add: bind_prepend_Nil del: pulls.simps)
next
  case (Cons i done')
  have sub: "drain (yield_all_priv self)
      (Entry False [] (kw @ [(''id'', PList (take 50 (drop i ids)))])) = Some (E i, X i, Returned)"
    using Cons.prems by simp
  have ih: "pulls (yield_all self) (Suc (length (concat (map X done')) + n))
           (YForHead pb d kw (PList ids) (done' @ rest)) =
     Option.bind (pulls (yield_all self) (Suc n) (YForHead pb d kw (PList ids) rest))
       (prepend (concat (map (\<lambda>i. E i @ batch_step pb) done')) (map Item (concat (map X done'))))"
    using Cons by (simp del: pulls.simps)
  have len: "length (concat (map X (i # done'))) + Suc n =
      length (X i) + Suc (length (concat (map X done')) + n)" by simp
  have "pulls (yield_all self) (length (X i) + Suc (length (concat (map X done')) + n))
        (YForHead pb d kw (PList ids) ((i # done') @ rest)) =
      pulls (yield_all self) (length (X i) + Suc (length (concat (map X done')) + n))
        (YFrom pb d kw (PList ids) (done' @ rest)
          (Entry False [] (kw @ [(''id'', PList (take 50 (drop i ids)))])))"
    by (simp del: yield_all.simps add: yield_all_YForHead_Cons)
  also have "\<dots> = Option.bind
       (pulls (yield_all self) (Suc (length (concat (map X done')) + n))
          (YForHead pb d kw (PList ids) (done' @ rest)))
       (prepend (E i @ batch_step pb) (map Item (X i)))"
    using pulls_YFrom_drained [OF sub, of "length (concat (map X done')) + n" pb d kw "PList ids" "done' @ rest"]
    by (simp del: pulls.simps)
  also have "\<dots> = Option.bind (pulls (yield_all self) (Suc n) (YForHead pb d kw (PList ids) rest))
       (prepend ((E i @ batch_step pb) @ concat (map (\<lambda>i. E i @ batch_step pb) done'))
          (map Item (X i) @ map Item (concat (map X done'))))"
    by (simp only: ih bind_prepend_prepend)
  finally show ?case by (simp only: len) (simp del: pulls.simps)
qed

lemma t_range: "py_range 120 50 = [0, 50, 100]"
  by code_simp


lemma t_range2: "py_range 51 50 = [0, 50]"
  by code_simp

lemma priv_overflow:
  assumes "req_execute (resource_of self) req = Inr res"
    and "total_pages (totalResults res) = Inl e"
  shows "yield_all_priv self (While pb d (Some req)) = emit [CallExecute req] (except_HttpError e)"
  using assms by (simp add: priv_While_Some)

lemma drain_YElse_rev:
  assumes "drain (yield_all self) st = Some y"
  shows "\<forall>g. st = YElse g \<longrightarrow> drain (yield_all_priv self) g = Some y"
  using assms
proof (induction rule: drain_induct)
  case (Stop st es st')
  show ?case
  proof (intro allI impI)
    fix g assume "st = YElse g"
    with Stop obtain g' where "yield_all_priv self g = Some (es, StopIteration, g')"
      by (auto split: option.splits pulled.splits)
    then show "drain (yield_all_priv self) g = Some (es, [], Returned)" by (rule drain_Stop)
  qed
next
  case (Raised st es e st')
  show ?case
  proof (intro allI impI)
    fix g assume "st = YElse g"
    with Raised obtain g' where "yield_all_priv self g = Some (es, Raised e, g')"
      by (auto split: option.splits pulled.splits)
    then show "drain (yield_all_priv self) g = Some (es, [], Failed e)" by (rule drain_Raised)
  qed
next
  case (Item st es x st' es' xs out)
  show ?case
  proof (intro allI impI)
    fix g assume "st = YElse g"
    with Item(1) obtain g' where p: "yield_all_priv self g = Some (es, Item x, g')"
      and st': "st' = YElse g'"
      by (auto split: option.splits pulled.splits)
    from Item(3) st' have "drain (yield_all_priv self) g' = Some (es', xs, out)" by simp
    with drain_Item [of "yield_all_priv self", OF p]
    show "drain (yield_all_priv self) g = Some (es @ es', x # xs, out)"
      by (simp add: deliver_def)
  qed
qed

lemma drain_YElse_eq:
  "drain (yield_all self) (YElse g) = drain (yield_all_priv self) g"
proof (cases "drain (yield_all_priv self) g")
  case (Some y)
  then show ?thesis by (simp add: drain_YElse)
next
  case None
  show ?thesis
  proof (cases "drain (yield_all self) (YElse g)")
    case None
    with \<open>drain (yield_all_priv self) g = None\<close> show ?thesis by simp
  next
    case (Some y)
    from drain_YElse_rev [OF this] None show ?thesis by simp
  qed
qed

lemma drain_unsplit_eq:
  assumes "unsplit kwargs"
  shows "drain (yield_all self) (YEntry pb d kwargs) = drain (yield_all_priv self) (Entry pb d kwargs)"
proof -
  have "drain (yield_all self) (YEntry pb d kwargs) = drain (yield_all self) (YElse (Entry pb d kwargs))"
    by (rule drain_cong) (rule yield_all_unsplit [OF assms])
  then show ?thesis by (simp only: drain_YElse_eq)
qed

lemma slice_calls_PList:
  "slice_calls kw (PList ids) idxs =
   map (\<lambda>i. with_maxResults (kw @ [(''id'', PList (take 50 (drop i ids)))])) idxs"
  by (induction idxs) simp_all

lemma expected_calls_unsplit: "unsplit kwargs \<Longrightarrow> expected_calls kwargs = [with_maxResults kwargs]"
  by (auto simp: unsplit_def expected_calls_def split: option.splits sum.splits)

lemma expected_calls_split:
  assumes "map_of kwargs ''id'' = Some (PList ids)" and "50 < length ids"
  shows "expected_calls kwargs = map (\<lambda>b. with_maxResults (batch_kwargs kwargs b)) (id_batches ids)"
  using assms
  by (simp add: expected_calls_def slice_calls_PList id_batches_def batch_kwargs_def comp_def)

lemma slice_calls_frame:
  "\<forall>kw \<in> set (slice_calls (AList.delete ''id'' kwargs) ids idxs).
     frame kw = frame kwargs \<and> map_of kw ''maxResults'' = Some (PInt 50)"
  by (induction idxs) (auto simp: frame_batch map_of_with_maxResults split: sum.splits)

lemma expected_calls_frame:
  "\<forall>kw \<in> set (expected_calls kwargs).
     frame kw = frame kwargs \<and> map_of kw ''maxResults'' = Some (PInt 50)"
  using slice_calls_frame [of kwargs]
  by (auto simp: expected_calls_def frame_with_maxResults map_of_with_maxResults
      split: option.splits sum.splits)

lemma priv_calls:
  fixes self :: "('i, 'req, 'item) wrapper"
  assumes "yield_all_priv self g = Some (es, r, g')"
  shows "list_calls es = entry_calls g" and "entry_calls g' = []"
  using priv_step [OF assms] by (simp_all add: entry_calls_def)

lemma yield_all_pending:
  fixes self :: "('i, 'req, 'item) wrapper"
  shows "yield_all self st = Some y \<Longrightarrow>
     \<exists>rest. pending st = list_calls (fst y) @ pending (snd (snd y)) @ rest"
proof (induction self st arbitrary: y rule: yield_all.induct)
  case (1 self pb d kw)
  show ?case
  proof (cases "map_of kw ''id''")
    case None
    then have e: "expected_calls kw = [with_maxResults kw]" by (simp add: expected_calls_def)
    have "yield_all self (YElse (Entry pb d kw)) = Some y" using "1.prems" None by simp
    from "1.IH"(1) [OF None this] show ?thesis by (simp add: e entry_calls_def)
  next
    case (Some ids)
    show ?thesis
    proof (cases "py_len ids")
      case (Inl e)
      with "1.prems" Some show ?thesis by (auto simp: expected_calls_def)
    next
      case (Inr n)
      show ?thesis
      proof (cases "50 < n")
        case False
        have e: "expected_calls kw = [with_maxResults kw]"
          using Some Inr False by (simp add: expected_calls_def)
        have "yield_all self (YElse (Entry pb d kw)) = Some y"
          using "1.prems" Some Inr False by simp
        from "1.IH"(3) [OF Some Inr False this] show ?thesis by (simp add: e entry_calls_def)
      next
        case True
        have e: "expected_calls kw = slice_calls (AList.delete ''id'' kw) ids (py_range n 50)"
          using Some Inr True by (simp add: expected_calls_def)
        from "1.prems" Some Inr True obtain y' where
          y': "yield_all self (YForHead pb d (AList.delete ''id'' kw) ids (py_range n 50)) = Some y'"
          and y: "emit (batch_bar pb d (length (py_range n 50))) y' = Some y"
          by (auto split: Option.bind_splits)
        from "1.IH"(2) [OF Some Inr True y'] obtain rest where
          "slice_calls (AList.delete ''id'' kw) ids (py_range n 50) =
             list_calls (fst y') @ pending (snd (snd y')) @ rest" by auto
        with y show ?thesis
          by (cases y') (auto simp: emit_def list_calls_append e)
      qed
    qed
  qed
next
  case (2 self pb d kw ids)
  then show ?case by auto
next
  case (3 self pb d kw ids i rest)
  show ?case
  proof (cases "py_slice ids i (i + 50)")
    case (Inl e)
    with "3.prems" show ?thesis by auto
  next
    case (Inr batch)
    have "yield_all self (YFrom pb d kw ids rest (Entry False [] (kw @ [(''id'', batch)]))) = Some y"
      using "3.prems" Inr by simp
    from "3.IH" [OF Inr this] show ?thesis by (simp add: Inr entry_calls_def)
  qed
next
  case (4 self pb d kw ids rest g)
  from "4.prems" obtain es r g' where p: "yield_all_priv self g = Some (es, r, g')"
    by (cases "yield_all_priv self g") auto
  note c = priv_calls [OF p]
  show ?case
  proof (cases r)
    case (Item x)
    with "4.prems" p c show ?thesis by auto
  next
    case (Raised e)
    with "4.prems" p c show ?thesis by auto
  next
    case StopIteration
    with "4.prems" p obtain y' where
      y': "yield_all self (YForHead pb d kw ids rest) = Some y'"
      and y: "emit (es @ batch_step pb) y' = Some y"
      by (auto split: Option.bind_splits)
    from "4.IH" [OF p refl refl StopIteration y'] obtain more where
      "slice_calls kw ids rest = list_calls (fst y') @ pending (snd (snd y')) @ more" by auto
    with y c show ?thesis
      by (cases y') (auto simp: emit_def list_calls_append)
  qed
next
  case (5 self g)
  from "5.prems" obtain es r g' where p: "yield_all_priv self g = Some (es, r, g')"
    by (cases "yield_all_priv self g") auto
  note c = priv_calls [OF p]
  show ?case using "5.prems" p c by (cases r) auto
next
  case (6 self)
  then show ?case by auto
qed

lemma pulls_pending:
  fixes self :: "('i, 'req, 'item) wrapper"
  shows "pulls (yield_all self) n st = Some y \<Longrightarrow>
     \<exists>rest. pending st = list_calls (fst y) @ pending (snd (snd y)) @ rest"
proof (induction n arbitrary: st y)
  case 0
  then show ?case by auto
next
  case (Suc n)
  from Suc.prems obtain es r st' where s: "yield_all self st = Some (es, r, st')"
    by (cases "yield_all self st") auto
  with Suc.prems obtain y' where y': "pulls (yield_all self) n st' = Some y'"
    and y: "deliver es r y' = Some y"
    by (auto split: Option.bind_splits)
  from yield_all_pending [OF s] obtain r1 where 1: "pending st = list_calls es @ pending st' @ r1"
    by auto
  from Suc.IH [OF y'] obtain r2 where
    2: "pending st' = list_calls (fst y') @ pending (snd (snd y')) @ r2" by auto
  from y 1 2 show ?case
    by (cases y') (auto simp: deliver_def list_calls_append)
qed

lemma yield_all_quiet:
  fixes self :: "('i, 'req, 'item) wrapper"
  shows "batch_quiet st \<Longrightarrow> yield_all self st = Some y \<Longrightarrow>
     (\<forall>ev \<in> set (fst y). is_progress ev \<longrightarrow> ev = BatchStep) \<and> batch_quiet (snd (snd y))"
proof (induction self st arbitrary: y rule: yield_all.induct)
  case (1 self pb d kw)
  then show ?case by simp
next
  case (2 self pb d kw ids)
  then show ?case by auto
next
  case (3 self pb d kw ids i rest)
  show ?case
  proof (cases "py_slice ids i (i + 50)")
    case (Inl e)
    with "3.prems" show ?thesis by auto
  next
    case (Inr batch)
    have "yield_all self (YFrom pb d kw ids rest (Entry False [] (kw @ [(''id'', batch)]))) = Some y"
      using "3.prems" Inr by simp
    moreover have "batch_quiet (YFrom pb d kw ids rest (Entry False [] (kw @ [(''id'', batch)])))"
      by simp
    ultimately show ?thesis using "3.IH" [OF Inr] by blast
  qed
next
  case (4 self pb d kw ids rest g)
  from "4.prems" obtain es r g' where p: "yield_all_priv self g = Some (es, r, g')"
    by (cases "yield_all_priv self g") auto
  from priv_step [OF p] "4.prems"(1) have q: "\<forall>ev \<in> set es. \<not> is_progress ev" "\<not> gen_bar g'"
    by simp_all
  show ?case
  proof (cases r)
    case (Item x)
    with "4.prems" p q show ?thesis by auto
  next
    case (Raised e)
    with "4.prems" p q show ?thesis by auto
  next
    case StopIteration
    with "4.prems"(2) p obtain y' where
      y': "yield_all self (YForHead pb d kw ids rest) = Some y'"
      and y: "emit (es @ batch_step pb) y' = Some y"
      by (auto split: Option.bind_splits)
    have "batch_quiet (YForHead pb d kw ids rest)" by simp
    from "4.IH" [OF p refl refl StopIteration this y'] y q show ?thesis
      by (cases y') (auto simp: emit_def batch_step_def)
  qed
next
  case (5 self g)
  then show ?case by simp
next
  case (6 self)
  then show ?case by auto
qed

lemma pulls_quiet:
  fixes self :: "('i, 'req, 'item) wrapper"
  shows "batch_quiet st \<Longrightarrow> pulls (yield_all self) n st = Some y \<Longrightarrow>
     \<forall>ev \<in> set (fst y). is_progress ev \<longrightarrow> ev = BatchStep"
proof (induction n arbitrary: st y)
  case 0
  then show ?case by auto
next
  case (Suc n)
  from Suc.prems(2) obtain es r st' where s: "yield_all self st = Some (es, r, st')"
    by (cases "yield_all self st") auto
  with Suc.prems(2) obtain y' where y': "pulls (yield_all self) n st' = Some y'"
    and y: "deliver es r y' = Some y"
    by (auto split: Option.bind_splits)
  from yield_all_quiet [OF Suc.prems(1) s] have q: "batch_quiet st'"
    and ok: "\<forall>ev \<in> set es. is_progress ev \<longrightarrow> ev = BatchStep" by simp_all
  from Suc.IH [OF q y'] ok y show ?case
    by (cases y') (auto simp: deliver_def)
qed

lemma pulls_split_bar:
  fixes self :: "('i, 'req, 'item) wrapper"
  assumes "map_of kwargs ''id'' = Some (PList ids)" and "50 < length ids"
    and "pulls (yield_all self) (Suc n) (YEntry pb d kwargs) = Some (es, rs, st)"
  shows "\<exists>es'. es = batch_bar pb d ((length ids + 49) div 50) @ es' \<and>
           (\<forall>ev \<in> set es'. is_progress ev \<longrightarrow> ev = BatchStep)"
proof -
  have "pulls (yield_all self) (Suc n) (YEntry pb d kwargs) =
     Option.bind
       (pulls (yield_all self) (Suc n)
          (YForHead pb d (AList.delete ''id'' kwargs) (PList ids) (py_range (length ids) 50)))
       (prepend (batch_bar pb d (length (py_range (length ids) 50))) [])"
    by (rule pulls_emit) (rule yield_all_split [OF assms(1,2)])
  with assms(3) obtain y' where
    y': "pulls (yield_all self) (Suc n)
          (YForHead pb d (AList.delete ''id'' kwargs) (PList ids) (py_range (length ids) 50)) = Some y'"
    and y: "prepend (batch_bar pb d (length (py_range (length ids) 50))) [] y' = Some (es, rs, st)"
    by (auto simp del: pulls.simps split: Option.bind_splits)
  have "batch_quiet (YForHead pb d (AList.delete ''id'' kwargs) (PList ids) (py_range (length ids) 50))"
    by simp
  from pulls_quiet [OF this y'] y show ?thesis
    by (cases y') (auto simp: prepend_def length_py_range)
qed

lemma drain_YForHead_upto:
  assumes "\<forall>i\<in>set done. drain (yield_all_priv self)
              (Entry False [] (kw @ [(''id'', PList (take 50 (drop i ids)))])) = Some (E i, X i, Returned)"
  shows "drain (yield_all self) (YForHead pb d kw (PList ids) (done @ rest)) =
     Option.bind (drain (yield_all self) (YForHead pb d kw (PList ids) rest))
       (prepend (concat (map (\<lambda>i. E i @ batch_step pb) done)) (concat (map X done)))"
  using assms
proof (induction "done")
  case Nil
  show ?case by (simp add: bind_prepend_Nil)
next
  case (Cons i done')
  have sub: "drain (yield_all_priv self)
      (Entry False [] (kw @ [(''id'', PList (take 50 (drop i ids)))])) = Some (E i, X i, Returned)"
    using Cons.prems by simp
  have ih: "drain (yield_all self) (YForHead pb d kw (PList ids) (done' @ rest)) =
     Option.bind (drain (yield_all self) (YForHead pb d kw (PList ids) rest))
       (prepend (concat (map (\<lambda>i. E i @ batch_step pb) done')) (concat (map X done')))"
    using Cons by simp
  have "drain (yield_all self) (YForHead pb d kw (PList ids) ((i # done') @ rest)) =
      drain (yield_all self) (YFrom pb d kw (PList ids) (done' @ rest)
        (Entry False [] (kw @ [(''id'', PList (take 50 (drop i ids)))])))"
    by (rule drain_cong) (simp del: yield_all.simps add: yield_all_YForHead_Cons)
  also have "\<dots> = Option.bind (drain (yield_all self) (YForHead pb d kw (PList ids) (done' @ rest)))
             (prepend (E i @ batch_step pb) (X i))"
    using drain_YFrom [OF sub, of pb d kw "PList ids" "done' @ rest"] by simp
  also have "\<dots> = Option.bind (drain (yield_all self) (YForHead pb d kw (PList ids) rest))
       (prepend ((E i @ batch_step pb) @ concat (map (\<lambda>i. E i @ batch_step pb) done'))
          (X i @ concat (map X done')))"
    by (simp only: ih bind_prepend_prepend)
  finally show ?case by simp
qed

lemma drain_split_fails:
  assumes "map_of kwargs ''id'' = Some (PList ids)" and "50 < length ids"
    and "py_range (length ids) 50 = done @ i # later"
    and "\<forall>j\<in>set done. drain (yield_all_priv self)
              (Entry False [] (batch_kwargs kwargs (take 50 (drop j ids)))) = Some (E j, X j, Returned)"
    and "drain (yield_all_priv self)
              (Entry False [] (batch_kwargs kwargs (take 50 (drop i ids)))) = Some (es, xs, Failed e)"
  shows "drain (yield_all self) (YEntry pb d kwargs) =
     Some (batch_bar pb d (length (py_range (length ids) 50)) @
             concat (map (\<lambda>j. E j @ batch_step pb) done) @ es,
           concat (map X done) @ xs, Failed e)"
proof -
  let ?kw = "AList.delete ''id'' kwargs"
  have "drain (yield_all self) (YForHead pb d ?kw (PList ids) (i # later)) =
      drain (yield_all self) (YFrom pb d ?kw (PList ids) later
        (Entry False [] (?kw @ [(''id'', PList (take 50 (drop i ids)))])))"
    by (rule drain_cong) (rule yield_all_YForHead_Cons)
  also have "\<dots> = Some (es, xs, Failed e)"
    using drain_YFrom [OF assms(5) [unfolded batch_kwargs_def], of pb d ?kw "PList ids" later]
    by simp
  finally have cur: "drain (yield_all self) (YForHead pb d ?kw (PList ids) (i # later)) =
      Some (es, xs, Failed e)" .
  have "drain (yield_all self) (YForHead pb d ?kw (PList ids) (done @ i # later)) =
     Option.bind (drain (yield_all self) (YForHead pb d ?kw (PList ids) (i # later)))
       (prepend (concat (map (\<lambda>i. E i @ batch_step pb) done)) (concat (map X done)))"
    by (rule drain_YForHead_upto) (use assms(4) in \<open>simp add: batch_kwargs_def\<close>)
  then have heads: "drain (yield_all self) (YForHead pb d ?kw (PList ids) (py_range (length ids) 50)) =
      Some (concat (map (\<lambda>j. E j @ batch_step pb) done) @ es, concat (map X done) @ xs, Failed e)"
    by (simp add: cur assms(3) prepend_def)
  have "drain (yield_all self) (YEntry pb d kwargs) =
     Option.bind
       (drain (yield_all self) (YForHead pb d ?kw (PList ids) (py_range (length ids) 50)))
       (emit (batch_bar pb d (length (py_range (length ids) 50))))"
    by (rule drain_emit) (rule yield_all_split [OF assms(1,2)])
  then show ?thesis by (simp add: heads emit_def)
qed

lemma pulls_split_into:
  assumes "map_of kwargs ''id'' = Some (PList ids)" and "50 < length ids"
    and "py_range (length ids) 50 = done @ i # later"
    and "\<forall>j\<in>set done. drain (yield_all_priv self)
              (Entry False [] (batch_kwargs kwargs (take 50 (drop j ids)))) = Some (E j, X j, Returned)"
    and "pulls (yield_all_priv self) (Suc n)
              (Entry False [] (batch_kwargs kwargs (take 50 (drop i ids)))) = Some (es, map Item xs, g')"
  shows "pulls (yield_all self) (length (concat (map X done)) + Suc n) (YEntry pb d kwargs) =
     Some (batch_bar pb d (length (py_range (length ids) 50)) @
             concat (map (\<lambda>j. E j @ batch_step pb) done) @ es,
           map Item (concat (map X done) @ xs),
           YFrom pb d (AList.delete ''id'' kwargs) (PList ids) later g')"
proof -
  let ?kw = "AList.delete ''id'' kwargs"
  let ?L = "length (concat (map X done))"
  have "pulls (yield_all self) (Suc n) (YFrom pb d ?kw (PList ids) later
          (Entry False [] (batch_kwargs kwargs (take 50 (drop i ids))))) =
     Some (es, map Item xs, YFrom pb d ?kw (PList ids) later g')"
    using assms(5) by (rule pulls_YFrom_items)
  moreover have "pulls (yield_all self) (Suc n) (YForHead pb d ?kw (PList ids) (i # later)) =
      pulls (yield_all self) (Suc n) (YFrom pb d ?kw (PList ids) later
          (Entry False [] (batch_kwargs kwargs (take 50 (drop i ids)))))"
    unfolding batch_kwargs_def by (rule pulls_cong) (rule yield_all_YForHead_Cons)
  ultimately have cur: "pulls (yield_all self) (Suc n) (YForHead pb d ?kw (PList ids) (i # later)) =
     Some (es, map Item xs, YFrom pb d ?kw (PList ids) later g')"
    by simp
  have "pulls (yield_all self) (?L + Suc n) (YForHead pb d ?kw (PList ids) (done @ i # later)) =
     Option.bind (pulls (yield_all self) (Suc n) (YForHead pb d ?kw (PList ids) (i # later)))
       (prepend (concat (map (\<lambda>i. E i @ batch_step pb) done)) (map Item (concat (map X done))))"
    by (rule pulls_YForHead_done) (use assms(4) in \<open>simp add: batch_kwargs_def\<close>)
  then have heads: "pulls (yield_all self) (Suc (?L + n)) (YForHead pb d ?kw (PList ids) (done @ i # later)) =
     Some (concat (map (\<lambda>j. E j @ batch_step pb) done) @ es,
           map Item (concat (map X done)) @ map Item xs,
           YFrom pb d ?kw (PList ids) later g')"
    by (simp only: cur) (simp add: prepend_def del: pulls.simps)
  have "yield_all self (YEntry pb d kwargs) =
     Option.bind
       (yield_all self (YForHead pb d ?kw (PList ids) (py_range (length ids) 50)))
       (emit (batch_bar pb d (length (py_range (length ids) 50))))"
    by (rule yield_all_split [OF assms(1,2)])
  from pulls_emit [of "yield_all self", OF this, of "?L + n"]
  have "pulls (yield_all self) (Suc (?L + n)) (YEntry pb d kwargs) =
     Some (batch_bar pb d (length (py_range (length ids) 50)) @
             concat (map (\<lambda>j. E j @ batch_step pb) done) @ es,
           map Item (concat (map X done)) @ map Item xs,
           YFrom pb d ?kw (PList ids) later g')"
    by (simp only: assms(3) heads) (simp add: prepend_def del: pulls.simps)
  then show ?thesis by (simp del: pulls.simps)
qed

lemma list_all_of_drain:
  assumes "drain (yield_all self) (YEntry pb d kwargs) = Some (es, xs, out)"
  shows "list_all self pb d kwargs =
           Some (es, case out of Returned \<Rightarrow> Inr xs | Failed e \<Rightarrow> Inl e)"
    and "\<exists>st. pulls (yield_all self) (Suc (length xs)) (YEntry pb d kwargs) =
           Some (es, map Item xs @ [ended out], st)"
proof -
  show "list_all self pb d kwargs =
           Some (es, case out of Returned \<Rightarrow> Inr xs | Failed e \<Rightarrow> Inl e)"
    using assms by (simp add: list_all_def split: outcome.splits)
  from drain_pulls [OF assms]
  show "\<exists>st. pulls (yield_all self) (Suc (length xs)) (YEntry pb d kwargs) =
           Some (es, map Item xs @ [ended out], st)"
    by (simp del: pulls.simps)
qed

lemma drain_fails:
  assumes "call_list (resource_of self) (with_maxResults kwargs) = Inr req0"
    and "chain (resource_of self) (Some req0) steps"
    and "chain_end (Some req0) steps = Some req"
    and "req_execute (resource_of self) req = Inl e"
    and "e \<noteq> HttpError 404"
  shows "drain (yield_all_priv self) (Entry pb d kwargs) =
           Some (CallList (with_maxResults kwargs) # chain_events pb d steps @
                   CallExecute req # logged e,
                 chain_items steps, Failed e)"
proof -
  have "yield_all_priv self (While pb d (Some req)) =
      Some (CallExecute req # logged e, Raised e, Exit)"
    using assms(4,5) by (simp add: priv_While_Some emit_def except_other)
  then have "drain (yield_all_priv self) (While pb d (Some req)) =
      Some (CallExecute req # logged e, [], Failed e)"
    by (rule drain_Raised)
  then have "drain (yield_all_priv self) (While pb d (Some req0)) =
        Some (chain_events pb d steps @ CallExecute req # logged e, chain_items steps, Failed e)"
    using drain_chain [OF assms(2), of pb d] assms(3) by (simp add: prepend_def)
  then show ?thesis
    by (simp add: drain_Entry [OF assms(1)] prepend_def)
qed

lemma overflow_ends_page:
  assumes "req_execute (resource_of self) req = Inr res"
    and "total_pages (totalResults res) = Inl OverflowError"
  shows "yield_all_priv self (While pb d (Some req)) =
           Some ([CallExecute req], Raised OverflowError, Exit)"
  using priv_overflow [OF assms] by (simp add: emit_def)

lemma echo_run_51:
  "pulls (yield_all (Wrapper echo)) (length (concat (map (\<lambda>j. take 50 (drop j [0 ..< 120])) [0])) + Suc 0)
     (YEntry False [] [(''part'', PStr ''x''), (''id'', PList [0 ..< 120])]) =
   Some ([CallList [(''part'', PStr ''x''), (''id'', PList [0 ..< 50]), (''maxResults'', PInt 50)],
          CallExecute [0 ..< 50], CallListNext [0 ..< 50] (Page 50 [0 ..< 50]),
          CallList [(''part'', PStr ''x''), (''id'', PList [50 ..< 100]), (''maxResults'', PInt 50)],
          CallExecute [50 ..< 100]],
         map Item (concat (map (\<lambda>j. take 50 (drop j [0 ..< 120])) [0]) @ take 1 [50 ..< 100]),
         YFrom False [] (AList.delete ''id'' [(''part'', PStr ''x''), (''id'', PList [0 ..< 120])])
           (PList [0 ..< 120]) [100]
           (For False [] [50 ..< 100] (Page 50 [50 ..< 100]) (drop 1 [50 ..< 100])))"
proof -
  let ?ids = "[0 ..< 120 :: nat]"
  let ?kwargs = "[(''part'', PStr ''x''), (''id'', PList ?ids)]"
  let ?kw0 = "batch_kwargs ?kwargs (take 50 (drop 50 ?ids))"
  let ?E = "\<lambda>j. [CallList (with_maxResults (batch_kwargs ?kwargs (take 50 (drop j ?ids)))),
             CallExecute (take 50 (drop j ?ids)),
             CallListNext (take 50 (drop j ?ids)) (Page 50 (take 50 (drop j ?ids)))]"
  have h1: "call_list (resource_of (Wrapper echo)) (with_maxResults ?kw0) = Inr [50 ..< 100]"
    by (simp add: call_list_def echo_def map_of_batch_kwargs)
  have h2: "chain (resource_of (Wrapper echo)) (Some [50 ..< 100]) []" by simp
  have h3: "chain_end (Some [50 ..< 100 :: nat]) ([] :: (nat list \<times> nat page \<times> nat list option) list)
      = Some [50 ..< 100]" by simp
  have h4: "req_execute (resource_of (Wrapper echo)) [50 ..< 100] = Inr (Page 50 [50 ..< 100])"
    by (simp add: echo_def)
  have h5: "served (Page 50 [50 ..< 100 :: nat])" by simp
  have h6: "0 < (1 :: nat)" by simp
  have h7: "1 \<le> length (items (Page 50 [50 ..< 100 :: nat]))" by simp
  from pulls_into_page [OF h1 h2 h3 h4 h5 h6 h7, of False "[]"]
  have cur: "pulls (yield_all_priv (Wrapper echo)) (Suc 0) (Entry False [] ?kw0) =
      Some ([CallList (with_maxResults ?kw0), CallExecute [50 ..< 100]],
            map Item (take 1 [50 ..< 100]),
            For False [] [50 ..< 100] (Page 50 [50 ..< 100]) (drop 1 [50 ..< 100]))"
    by (simp add: chain_events_def chain_items_def page_events_def del: pulls.simps)
  have idp: "map_of ?kwargs ''id'' = Some (PList ?ids)" by simp
  have long: "50 < length ?ids" by simp
  have rng: "py_range (length ?ids) 50 = [0] @ 50 # [100]" by (simp add: t_range)
  have sub: "\<forall>j \<in> set [0]. drain (yield_all_priv (Wrapper echo))
          (Entry False [] (batch_kwargs ?kwargs (take 50 (drop j ?ids)))) =
          Some (?E j, take 50 (drop j ?ids), Returned)"
    by (simp add: echo_batch)
  from pulls_split_into [OF idp long rng sub cur, of False "[]"]
  show ?thesis
    by (simp add: batch_kwargs_def with_maxResults_def batch_bar_def batch_step_def
        del: pulls.simps)
qed

section \<open>Claims\<close>

text \<open>
  C1. When no splitting of \<^verbatim>\<open>id\<close> is needed and the resource serves a finite
  sequence of pages (each with a total that line 62 can divide), the last of which
  is the first that \<^verbatim>\<open>list_next\<close> answers with \<^verbatim>\<open>None\<close>, both \<^verbatim>\<open>_yield_all\<close> and \<^verbatim>\<open>yield_all\<close> deliver exactly
  the items of the pages in page order and return. The calls of the run are the
  \<^verbatim>\<open>list\<close> call and, for each page, one \<^verbatim>\<open>execute\<close> and one \<^verbatim>\<open>list_next\<close>:
  nothing is called after the \<^verbatim>\<open>list_next\<close> that returned \<^verbatim>\<open>None\<close>.
\<close>

theorem completeness:
  assumes "unsplit kwargs"
    and "call_list (resource_of self) (with_maxResults kwargs) = Inr req"
    and "chain (resource_of self) (Some req) steps"
    and "chain_end (Some req) steps = None"
  shows "drain (yield_all_priv self) (Entry pb d kwargs) =
           Some (CallList (with_maxResults kwargs) # chain_events pb d steps,
                 chain_items steps, Returned) \<and>
         drain (yield_all self) (YEntry pb d kwargs) =
           Some (CallList (with_maxResults kwargs) # chain_events pb d steps,
                 chain_items steps, Returned)"
  using drain_pages [OF assms(2,3,4)] drain_unsplit [OF assms(1) drain_pages [OF assms(2,3,4)]]
  by simp

theorem completeness_witness:
  "drain (yield_all (Wrapper (mock (Inr (Page 3 [''a'', ''b''])) (Inr (Page 3 [''c'']))))) 
     (YEntry False [] [(''part'', PStr ''snippet'')]) =
   Some ([CallList [(''part'', PStr ''snippet''), (''maxResults'', PInt 50)],
          CallExecute 0, CallListNext 0 (Page 3 [''a'', ''b'']),
          CallExecute 1, CallListNext 1 (Page 3 [''c''])],
         [''a'', ''b'', ''c''], Returned)"
  using completeness [of "[(''part'', PStr ''snippet'')]"
      "Wrapper (mock (Inr (Page 3 [''a'', ''b''])) (Inr (Page 3 [''c''])))" 0
      "[(0, Page 3 [''a'', ''b''], Some 1), (1, Page 3 [''c''], None)]" False "[]"]
  by (simp add: unsplit_def with_maxResults_def mock_def call_list_def call_list_next_def
      chain_events_def chain_items_def page_events_def)

text \<open>
  C2. With an \<^verbatim>\<open>id\<close> list of at most 50 identifiers \<^verbatim>\<open>yield_all\<close> is the one
  generator \<^verbatim>\<open>_yield_all\<close> on the keyword arguments as they are: a complete run
  makes the same calls and delivers the same items with the same outcome, and so
  does every run that the consumer stops after some items. With more than 50 it
  runs one generator per slice \<^verbatim>\<open>ids[i : i + 50]\<close>: there are
  \<open>\<lceil>length ids / 50\<rceil>\<close> slices, slice \<open>k\<close> is the 50 identifiers from position
  \<open>50 k\<close> on (fewer, but at least one, for the last), their concatenation is
  \<open>ids\<close>, and when each inner generator returns, the items of \<^verbatim>\<open>yield_all\<close> are
  the items of the inner generators in the order of the slices.
\<close>

theorem batching:
  assumes "map_of kwargs ''id'' = Some (PList ids)"
  shows "(length ids \<le> 50 \<longrightarrow>
            yield_all self (YEntry pb d kwargs) = yield_all self (YElse (Entry pb d kwargs)) \<and>
            drain (yield_all self) (YEntry pb d kwargs) =
              drain (yield_all_priv self) (Entry pb d kwargs) \<and>
            (\<forall>n es xs g.
               pulls (yield_all_priv self) (Suc n) (Entry pb d kwargs) = Some (es, map Item xs, g)
               \<longrightarrow> pulls (yield_all self) (Suc n) (YEntry pb d kwargs) =
                     Some (es, map Item xs, YElse g))) \<and>
         (50 < length ids \<longrightarrow>
            length (id_batches ids) = (length ids + 49) div 50 \<and>
            concat (id_batches ids) = ids \<and>
            (\<forall>k < length (id_batches ids).
               id_batches ids ! k = take 50 (drop (k * 50) ids) \<and>
               length (id_batches ids ! k) =
                 (if Suc k < length (id_batches ids) then 50 else length ids - k * 50) \<and>
               0 < length (id_batches ids ! k) \<and> length (id_batches ids ! k) \<le> 50) \<and>
            ((\<forall>b \<in> set (id_batches ids).
                drain (yield_all_priv self) (Entry False [] (batch_kwargs kwargs b)) =
                  Some (E b, X b, Returned)) \<longrightarrow>
             drain (yield_all self) (YEntry pb d kwargs) =
               Some (batch_bar pb d (length (id_batches ids)) @
                       concat (map (\<lambda>b. E b @ batch_step pb) (id_batches ids)),
                     concat (map X (id_batches ids)), Returned)))"
proof (intro conjI impI allI)
  assume "length ids \<le> 50"
  then have u: "unsplit kwargs" using assms by (simp add: unsplit_def)
  show "yield_all self (YEntry pb d kwargs) = yield_all self (YElse (Entry pb d kwargs))"
    using u by (rule yield_all_unsplit)
  show "drain (yield_all self) (YEntry pb d kwargs) =
      drain (yield_all_priv self) (Entry pb d kwargs)"
    using u by (rule drain_unsplit_eq)
  fix n es xs g
  assume "pulls (yield_all_priv self) (Suc n) (Entry pb d kwargs) = Some (es, map Item xs, g)"
  then have "pulls (yield_all self) (Suc n) (YElse (Entry pb d kwargs)) =
      Some (es, map Item xs, YElse g)"
    by (rule pulls_YElse_items)
  moreover have "pulls (yield_all self) (Suc n) (YEntry pb d kwargs) =
      pulls (yield_all self) (Suc n) (YElse (Entry pb d kwargs))"
    by (rule pulls_cong) (rule yield_all_unsplit [OF u])
  ultimately show "pulls (yield_all self) (Suc n) (YEntry pb d kwargs) =
      Some (es, map Item xs, YElse g)"
    by simp
next
  show "length (id_batches ids) = (length ids + 49) div 50" by (rule length_id_batches)
next
  show "concat (id_batches ids) = ids" by (rule concat_id_batches)
next
  fix k assume "k < length (id_batches ids)"
  then have k: "k < (length ids + 49) div 50" by (simp add: length_id_batches)
  show "id_batches ids ! k = take 50 (drop (k * 50) ids)" by (rule nth_id_batches [OF k])
  show "length (id_batches ids ! k) =
      (if Suc k < length (id_batches ids) then 50 else length ids - k * 50)"
    using length_nth_id_batches(1) [OF k] by (simp add: length_id_batches)
  show "0 < length (id_batches ids ! k)" by (rule length_nth_id_batches(2) [OF k])
  show "length (id_batches ids ! k) \<le> 50" by (rule length_nth_id_batches(3) [OF k])
next
  assume long: "50 < length ids"
    and sub: "\<forall>b \<in> set (id_batches ids).
                drain (yield_all_priv self) (Entry False [] (batch_kwargs kwargs b)) =
                  Some (E b, X b, Returned)"
  have "\<forall>i\<in>set (py_range (length ids) 50). drain (yield_all_priv self)
              (Entry False [] (batch_kwargs kwargs (take 50 (drop i ids)))) =
            Some (E (take 50 (drop i ids)), X (take 50 (drop i ids)), Returned)"
    using sub by (simp add: id_batches_def)
  from drain_split [OF assms long this, of pb d]
  show "drain (yield_all self) (YEntry pb d kwargs) =
               Some (batch_bar pb d (length (id_batches ids)) @
                       concat (map (\<lambda>b. E b @ batch_step pb) (id_batches ids)),
                     concat (map X (id_batches ids)), Returned)"
    by (simp add: id_batches_def comp_def)
qed

theorem batching_witness:
  "drain (yield_all (Wrapper echo)) (YEntry False [] [(''id'', PList [7, 8])]) =
     Some ([CallList [(''id'', PList [7, 8]), (''maxResults'', PInt 50)],
            CallExecute [7, 8], CallListNext [7, 8] (Page 50 [7, 8])],
           [7, 8], Returned) \<and>
   length (id_batches [0 ..< 120]) = 3 \<and>
   (\<exists>es. drain (yield_all (Wrapper echo))
           (YEntry False [] [(''part'', PStr ''contentDetails''), (''id'', PList [0 ..< 120])]) =
         Some (es, [0 ..< 120], Returned))"
proof (intro conjI)
  have "map_of [(''id'', PList [7, 8 :: nat])] ''id'' = Some (PList [7, 8])" by simp
  from batching [OF this, of "Wrapper echo" False "[]"] echo_batch [of "[]" "[7, 8]"]
  show "drain (yield_all (Wrapper echo)) (YEntry False [] [(''id'', PList [7, 8])]) =
     Some ([CallList [(''id'', PList [7, 8]), (''maxResults'', PInt 50)],
            CallExecute [7, 8], CallListNext [7, 8] (Page 50 [7, 8])],
           [7, 8], Returned)"
    by (simp add: batch_kwargs_def with_maxResults_def del: yield_all.simps)
next
  have "map_of [(''part'', PStr ''contentDetails''), (''id'', PList [0 ..< 120])] ''id'' =
      Some (PList [0 ..< 120])"
    by simp
  from batching [OF this, of "Wrapper echo" False "[]"
      "\<lambda>b. [CallList (with_maxResults (batch_kwargs
               [(''part'', PStr ''contentDetails''), (''id'', PList [0 ..< 120])] b)),
             CallExecute b, CallListNext b (Page 50 b)]" "\<lambda>b. b"]
  show "length (id_batches [0 ..< 120]) = 3"
    and "\<exists>es. drain (yield_all (Wrapper echo))
           (YEntry False [] [(''part'', PStr ''contentDetails''), (''id'', PList [0 ..< 120])]) =
         Some (es, [0 ..< 120], Returned)"
    by (simp_all add: echo_batch)
qed

text \<open>
  C3. If the \<^verbatim>\<open>execute\<close> of the first request raises an \<^verbatim>\<open>HttpError\<close> with status
  404, the first \<^verbatim>\<open>next()\<close> on the generator of \<^verbatim>\<open>_yield_all\<close> already reports
  the normal end of the stream: no item, no exception, and a consumer that drains
  the generator gets the empty list.
\<close>

theorem not_found_is_empty:
  assumes "call_list (resource_of self) (with_maxResults kwargs) = Inr req"
    and "req_execute (resource_of self) req = Inl (HttpError 404)"
  shows "yield_all_priv self (Entry pb d kwargs) =
           Some ([CallList (with_maxResults kwargs), CallExecute req], StopIteration, Exit) \<and>
         drain (yield_all_priv self) (Entry pb d kwargs) =
           Some ([CallList (with_maxResults kwargs), CallExecute req], [], Returned)"
proof -
  have "yield_all_priv self (Entry pb d kwargs) =
           Some ([CallList (with_maxResults kwargs), CallExecute req], StopIteration, Exit)"
    using assms by (simp add: priv_Entry priv_While_Some with_maxResults_def emit_def)
  then show ?thesis by (simp add: drain_Stop)
qed

theorem not_found_is_empty_witness:
  "drain (yield_all_priv (Wrapper (mock (Inl (HttpError 404)) (Inr (Page 1 [''c'']))))) 
     (Entry False [] [(''playlistId'', PStr ''UU'')]) =
   Some ([CallList [(''playlistId'', PStr ''UU''), (''maxResults'', PInt 50)], CallExecute 0],
         [], Returned)"
  using not_found_is_empty [of "Wrapper (mock (Inl (HttpError 404)) (Inr (Page 1 [''c''])))"
      "[(''playlistId'', PStr ''UU'')]" 0 False "[]"]
  by (simp add: with_maxResults_def mock_def call_list_def)

text \<open>
  C4. When the resource has served pages (each with a total that line 62 can
  divide) holding \<open>k\<close> items in all and the
  \<^verbatim>\<open>execute\<close> of the next request raises an error other than an \<^verbatim>\<open>HttpError\<close>
  with status 404, a consumer of \<^verbatim>\<open>_yield_all\<close> receives exactly the \<open>k\<close> items and
  then the error. The failing \<^verbatim>\<open>execute\<close> is the last call made: every later
  \<^verbatim>\<open>next()\<close> reports the end of the generator and calls nothing.
\<close>

theorem other_error_propagates:
  assumes "call_list (resource_of self) (with_maxResults kwargs) = Inr req0"
    and "chain (resource_of self) (Some req0) steps"
    and "chain_end (Some req0) steps = Some req"
    and "req_execute (resource_of self) req = Inl e"
    and "e \<noteq> HttpError 404"
  shows "pulls (yield_all_priv self) (length (chain_items steps) + Suc n) (Entry pb d kwargs) =
           Some (CallList (with_maxResults kwargs) # chain_events pb d steps @
                   CallExecute req # logged e,
                 map Item (chain_items steps) @ Raised e # replicate n StopIteration, Exit) \<and>
         drain (yield_all_priv self) (Entry pb d kwargs) =
           Some (CallList (with_maxResults kwargs) # chain_events pb d steps @
                   CallExecute req # logged e,
                 chain_items steps, Failed e)"
proof -
  have step: "yield_all_priv self (While pb d (Some req)) =
      Some (CallExecute req # logged e, Raised e, Exit)"
    using assms(4,5) by (simp add: priv_While_Some emit_def except_other)
  have "pulls (yield_all_priv self) (Suc n) (While pb d (Some req)) =
      Some (CallExecute req # logged e, Raised e # replicate n StopIteration, Exit)"
    by (simp add: step pulls_Exit deliver_def)
  then have "pulls (yield_all_priv self) (length (chain_items steps) + Suc n) (While pb d (Some req0)) =
        Some (chain_events pb d steps @ CallExecute req # logged e,
          map Item (chain_items steps) @ Raised e # replicate n StopIteration, Exit)"
    using pulls_chain [OF assms(2), of n pb d] assms(3) by (simp add: prepend_def del: pulls.simps)
  moreover have "length (chain_items steps) + Suc n = Suc (length (chain_items steps) + n)" by simp
  ultimately have 1: "pulls (yield_all_priv self) (length (chain_items steps) + Suc n) (Entry pb d kwargs) =
           Some (CallList (with_maxResults kwargs) # chain_events pb d steps @
                   CallExecute req # logged e,
                 map Item (chain_items steps) @ Raised e # replicate n StopIteration, Exit)"
    using pulls_Entry [OF assms(1), of "length (chain_items steps) + n" pb d]
    by (simp add: prepend_def del: pulls.simps)
  have "drain (yield_all_priv self) (While pb d (Some req)) =
      Some (CallExecute req # logged e, [], Failed e)"
    using step by (rule drain_Raised)
  then have "drain (yield_all_priv self) (While pb d (Some req0)) =
        Some (chain_events pb d steps @ CallExecute req # logged e, chain_items steps, Failed e)"
    using drain_chain [OF assms(2), of pb d] assms(3) by (simp add: prepend_def)
  then have 2: "drain (yield_all_priv self) (Entry pb d kwargs) =
           Some (CallList (with_maxResults kwargs) # chain_events pb d steps @
                   CallExecute req # logged e,
                 chain_items steps, Failed e)"
    by (simp add: drain_Entry [OF assms(1)] prepend_def)
  from 1 2 show ?thesis by simp
qed

theorem other_error_propagates_witness:
  "pulls (yield_all_priv (Wrapper (mock (Inr (Page 3 [''a'', ''b''])) (Inl (HttpError 500)))))
     5 (Entry False [] [(''playlistId'', PStr ''UU'')]) =
   Some ([CallList [(''playlistId'', PStr ''UU''), (''maxResults'', PInt 50)],
          CallExecute 0, CallListNext 0 (Page 3 [''a'', ''b'']), CallExecute 1,
          LogError (HttpError 500)],
         [Item ''a'', Item ''b'', Raised (HttpError 500), StopIteration, StopIteration], Exit)"
  using other_error_propagates [of "Wrapper (mock (Inr (Page 3 [''a'', ''b''])) (Inl (HttpError 500)))"
      "[(''playlistId'', PStr ''UU'')]" 0 "[(0, Page 3 [''a'', ''b''], Some 1)]" 1 "HttpError 500"
      2 False "[]"]
  by (simp add: with_maxResults_def mock_def call_list_def call_list_next_def
      chain_events_def chain_items_def page_events_def logged_def numeral_eq_Suc del: pulls.simps)

text \<open>
  C5. As stated the claim fails: line 55 sets \<^verbatim>\<open>maxResults\<close> to 50 in the keyword
  arguments of every \<^verbatim>\<open>list\<close> call, adding the field or overwriting the caller's
  value. What holds: however far the consumer pulls, the \<^verbatim>\<open>list\<close> calls made so
  far are, in order, the first of the calls of a complete run. These are one call
  with the caller's arguments when \<^verbatim>\<open>id\<close> is absent or has at most 50
  identifiers, and otherwise one call per slice \<^verbatim>\<open>ids[i : i + 50]\<close> in the order
  of the slices, the \<open>k\<close>-th call with the \<open>k\<close>-th slice as \<^verbatim>\<open>id\<close>. Every call
  has \<^verbatim>\<open>maxResults\<close> equal to 50 and all fields other than \<^verbatim>\<open>id\<close> and
  \<^verbatim>\<open>maxResults\<close> as the caller gave them, in the caller's order.
\<close>

theorem list_calls_frame:
  assumes "pulls (yield_all self) n (YEntry pb d kwargs) = Some (es, rs, st)"
  shows "take (length (list_calls es)) (expected_calls kwargs) = list_calls es \<and>
         (\<forall>kw \<in> set (expected_calls kwargs).
            frame kw = frame kwargs \<and> map_of kw ''maxResults'' = Some (PInt 50)) \<and>
         (unsplit kwargs \<longrightarrow> expected_calls kwargs = [with_maxResults kwargs]) \<and>
         (\<forall>ids. map_of kwargs ''id'' = Some (PList ids) \<and> 50 < length ids \<longrightarrow>
            expected_calls kwargs =
              map (\<lambda>b. with_maxResults (batch_kwargs kwargs b)) (id_batches ids) \<and>
            length (list_calls es) \<le> length (id_batches ids) \<and>
            (\<forall>k < length (list_calls es).
               list_calls es ! k = with_maxResults (batch_kwargs kwargs (id_batches ids ! k)) \<and>
               map_of (list_calls es ! k) ''id'' = Some (PList (id_batches ids ! k))))"
proof (intro conjI allI impI)
  from pulls_pending [OF assms] obtain rest where
    p: "expected_calls kwargs = list_calls es @ pending st @ rest" by auto
  then show pre: "take (length (list_calls es)) (expected_calls kwargs) = list_calls es" by simp
  show "\<forall>kw \<in> set (expected_calls kwargs).
            frame kw = frame kwargs \<and> map_of kw ''maxResults'' = Some (PInt 50)"
    by (rule expected_calls_frame)
  {
    assume "unsplit kwargs"
    then show "expected_calls kwargs = [with_maxResults kwargs]" by (rule expected_calls_unsplit)
  }
  {
    fix ids assume "map_of kwargs ''id'' = Some (PList ids) \<and> 50 < length ids"
    then have e: "expected_calls kwargs =
        map (\<lambda>b. with_maxResults (batch_kwargs kwargs b)) (id_batches ids)"
      by (simp add: expected_calls_split)
    then show "expected_calls kwargs =
        map (\<lambda>b. with_maxResults (batch_kwargs kwargs b)) (id_batches ids)" .
    have "length (list_calls es) \<le> length (expected_calls kwargs)" using p by simp
    then show len: "length (list_calls es) \<le> length (id_batches ids)" by (simp add: e)
    fix k assume k: "k < length (list_calls es)"
    have "list_calls es ! k = expected_calls kwargs ! k"
      using p k by (simp add: nth_append)
    also have "\<dots> = with_maxResults (batch_kwargs kwargs (id_batches ids ! k))"
      using k len by (simp add: e)
    finally show "list_calls es ! k = with_maxResults (batch_kwargs kwargs (id_batches ids ! k))" .
    then show "map_of (list_calls es ! k) ''id'' = Some (PList (id_batches ids ! k))"
      by (simp add: map_of_batch_kwargs)
  }
qed

theorem list_calls_frame_witness:
  "take 2 (expected_calls [(''part'', PStr ''x''), (''id'', PList [0 ..< 120])]) =
     [[(''part'', PStr ''x''), (''id'', PList [0 ..< 50]), (''maxResults'', PInt 50)],
      [(''part'', PStr ''x''), (''id'', PList [50 ..< 100]), (''maxResults'', PInt 50)]]"
  using list_calls_frame [OF echo_run_51, THEN conjunct1] by (simp add: numeral_2_eq_2)

theorem params_unchanged_counterexample:
  "yield_all (Wrapper (mock (Inr (Page 3 [''a'', ''b''])) (Inr (Page 3 [''c'']))))
     (YEntry False [] [(''part'', PStr ''snippet''), (''maxResults'', PInt 10)]) =
   Some ([CallList [(''part'', PStr ''snippet''), (''maxResults'', PInt 50)], CallExecute 0],
         Item ''a'', YElse (For False [] 0 (Page 3 [''a'', ''b'']) [''b''])) \<and>
   AList.delete ''id'' [(''part'', PStr ''snippet''), (''maxResults'', PInt 50 :: nat pyval)] \<noteq>
   AList.delete ''id'' [(''part'', PStr ''snippet''), (''maxResults'', PInt 10)]"
  by (simp add: yield_all_priv.simps mock_def call_list_def emit_def total_pages_small)

text \<open>
  C6. As stated the claim fails: line 107 passes neither \<^verbatim>\<open>progress_bar\<close> nor
  \<^verbatim>\<open>desc\<close> to \<^verbatim>\<open>_yield_all\<close>, so the fetch loop of every batch runs with its
  bar disabled. What holds with more than 50 identifiers and progress enabled: in
  every run the first pull opens one bar of \<open>\<lceil>length ids / 50\<rceil>\<close> steps, and the
  only progress events after it are steps of that bar, none page-level. The steps
  fall exactly at the normal end of a batch: a run that has completed some batches
  and is inside the next has made one step right after the events of each
  completed batch and none since; a complete run of batches that all end normally
  has one step after the events of each batch; and there is no step after a batch
  that raises.
\<close>

theorem batch_progress_only:
  assumes "map_of kwargs ''id'' = Some (PList ids)" and "50 < length ids"
  shows "(\<forall>n es rs st.
            pulls (yield_all self) (Suc n) (YEntry True d kwargs) = Some (es, rs, st) \<longrightarrow>
            (\<exists>es'. es = BatchBar d ((length ids + 49) div 50) # es' \<and>
                   (\<forall>ev \<in> set es'. is_progress ev \<longrightarrow> ev = BatchStep))) \<and>
         (\<forall>done i later n es xs g.
            py_range (length ids) 50 = done @ i # later \<and>
            (\<forall>j \<in> set done.
               drain (yield_all_priv self)
                 (Entry False [] (batch_kwargs kwargs (take 50 (drop j ids)))) =
               Some (E (take 50 (drop j ids)), X (take 50 (drop j ids)), Returned)) \<and>
            pulls (yield_all_priv self) (Suc n)
              (Entry False [] (batch_kwargs kwargs (take 50 (drop i ids)))) =
              Some (es, map Item xs, g) \<longrightarrow>
            pulls (yield_all self)
              (length (concat (map (\<lambda>j. X (take 50 (drop j ids))) done)) + Suc n)
              (YEntry True d kwargs) =
              Some (BatchBar d ((length ids + 49) div 50) #
                      concat (map (\<lambda>j. E (take 50 (drop j ids)) @ [BatchStep]) done) @ es,
                    map Item (concat (map (\<lambda>j. X (take 50 (drop j ids))) done) @ xs),
                    YFrom True d (AList.delete ''id'' kwargs) (PList ids) later g)) \<and>
         ((\<forall>b \<in> set (id_batches ids).
             drain (yield_all_priv self) (Entry False [] (batch_kwargs kwargs b)) =
               Some (E b, X b, Returned)) \<longrightarrow>
          drain (yield_all self) (YEntry True d kwargs) =
            Some (BatchBar d ((length ids + 49) div 50) #
                    concat (map (\<lambda>b. E b @ [BatchStep]) (id_batches ids)),
                  concat (map X (id_batches ids)), Returned) \<and>
          (\<forall>b \<in> set (id_batches ids). filter is_progress (E b) = [])) \<and>
         (\<forall>done i later es xs e.
            py_range (length ids) 50 = done @ i # later \<and>
            (\<forall>j \<in> set done.
               drain (yield_all_priv self)
                 (Entry False [] (batch_kwargs kwargs (take 50 (drop j ids)))) =
               Some (E (take 50 (drop j ids)), X (take 50 (drop j ids)), Returned)) \<and>
            drain (yield_all_priv self)
              (Entry False [] (batch_kwargs kwargs (take 50 (drop i ids)))) =
              Some (es, xs, Failed e) \<longrightarrow>
            drain (yield_all self) (YEntry True d kwargs) =
              Some (BatchBar d ((length ids + 49) div 50) #
                      concat (map (\<lambda>j. E (take 50 (drop j ids)) @ [BatchStep]) done) @ es,
                    concat (map (\<lambda>j. X (take 50 (drop j ids))) done) @ xs, Failed e))"
proof (intro conjI allI impI)
  fix n es rs st
  assume "pulls (yield_all self) (Suc n) (YEntry True d kwargs) = Some (es, rs, st)"
  from pulls_split_bar [OF assms this]
  show "\<exists>es'. es = BatchBar d ((length ids + 49) div 50) # es' \<and>
                   (\<forall>ev \<in> set es'. is_progress ev \<longrightarrow> ev = BatchStep)"
    by (simp add: batch_bar_def)
next
  fix "done" i later n es xs g
  assume a: "py_range (length ids) 50 = done @ i # later \<and>
            (\<forall>j \<in> set done.
               drain (yield_all_priv self)
                 (Entry False [] (batch_kwargs kwargs (take 50 (drop j ids)))) =
               Some (E (take 50 (drop j ids)), X (take 50 (drop j ids)), Returned)) \<and>
            pulls (yield_all_priv self) (Suc n)
              (Entry False [] (batch_kwargs kwargs (take 50 (drop i ids)))) =
              Some (es, map Item xs, g)"
  from pulls_split_into [unfolded length_py_range, OF assms, of "done" i later self
      "\<lambda>j. E (take 50 (drop j ids))" "\<lambda>j. X (take 50 (drop j ids))" n es xs g True d] a
  show "pulls (yield_all self)
              (length (concat (map (\<lambda>j. X (take 50 (drop j ids))) done)) + Suc n)
              (YEntry True d kwargs) =
              Some (BatchBar d ((length ids + 49) div 50) #
                      concat (map (\<lambda>j. E (take 50 (drop j ids)) @ [BatchStep]) done) @ es,
                    map Item (concat (map (\<lambda>j. X (take 50 (drop j ids))) done) @ xs),
                    YFrom True d (AList.delete ''id'' kwargs) (PList ids) later g)"
    by (simp add: batch_bar_def batch_step_def del: pulls.simps)
next
  assume sub: "\<forall>b \<in> set (id_batches ids).
             drain (yield_all_priv self) (Entry False [] (batch_kwargs kwargs b)) =
               Some (E b, X b, Returned)"
  have "\<forall>i\<in>set (py_range (length ids) 50). drain (yield_all_priv self)
              (Entry False [] (batch_kwargs kwargs (take 50 (drop i ids)))) =
            Some (E (take 50 (drop i ids)), X (take 50 (drop i ids)), Returned)"
    using sub by (simp add: id_batches_def)
  from drain_split [OF assms this, of True d]
  show "drain (yield_all self) (YEntry True d kwargs) =
            Some (BatchBar d ((length ids + 49) div 50) #
                    concat (map (\<lambda>b. E b @ [BatchStep]) (id_batches ids)),
                  concat (map X (id_batches ids)), Returned)"
    by (simp add: id_batches_def comp_def batch_bar_def batch_step_def length_py_range)
  show "\<forall>b \<in> set (id_batches ids). filter is_progress (E b) = []"
  proof
    fix b assume "b \<in> set (id_batches ids)"
    with sub have "drain (yield_all_priv self) (Entry False [] (batch_kwargs kwargs b)) =
               Some (E b, X b, Returned)" by blast
    from drain_no_progress [OF this] show "filter is_progress (E b) = []" by simp
  qed
next
  fix "done" i later es xs e
  assume a: "py_range (length ids) 50 = done @ i # later \<and>
            (\<forall>j \<in> set done.
               drain (yield_all_priv self)
                 (Entry False [] (batch_kwargs kwargs (take 50 (drop j ids)))) =
               Some (E (take 50 (drop j ids)), X (take 50 (drop j ids)), Returned)) \<and>
            drain (yield_all_priv self)
              (Entry False [] (batch_kwargs kwargs (take 50 (drop i ids)))) =
              Some (es, xs, Failed e)"
  from drain_split_fails [unfolded length_py_range, OF assms, of "done" i later self
      "\<lambda>j. E (take 50 (drop j ids))" "\<lambda>j. X (take 50 (drop j ids))" es xs e True d] a
  show "drain (yield_all self) (YEntry True d kwargs) =
              Some (BatchBar d ((length ids + 49) div 50) #
                      concat (map (\<lambda>j. E (take 50 (drop j ids)) @ [BatchStep]) done) @ es,
                    concat (map (\<lambda>j. X (take 50 (drop j ids))) done) @ xs, Failed e)"
    by (simp add: batch_bar_def batch_step_def)
qed

theorem batch_progress_only_witness:
  "drain (yield_all (Wrapper echo)) (YEntry True ''bar'' [(''id'', PList [0 ..< 51])]) =
   Some ([BatchBar ''bar'' 2,
          CallList [(''id'', PList [0 ..< 50]), (''maxResults'', PInt 50)],
          CallExecute [0 ..< 50], CallListNext [0 ..< 50] (Page 50 [0 ..< 50]),
          BatchStep,
          CallList [(''id'', PList [50]), (''maxResults'', PInt 50)],
          CallExecute [50], CallListNext [50] (Page 50 [50]),
          BatchStep],
         [0 ..< 50] @ [50], Returned)"
proof -
  let ?E = "\<lambda>b. [CallList (with_maxResults (batch_kwargs [(''id'', PList [0 ..< 51])] b)),
             CallExecute b, CallListNext b (Page 50 b)]"
  have idp: "map_of [(''id'', PList [0 ..< 51])] ''id'' = Some (PList [0 ..< 51])" by simp
  have long: "50 < length [0 ..< 51]" by simp
  have sub: "\<forall>b \<in> set (id_batches [0 ..< 51]).
      drain (yield_all_priv (Wrapper echo))
        (Entry False [] (batch_kwargs [(''id'', PList [0 ..< 51])] b)) =
      Some (?E b, b, Returned)"
    by (simp add: echo_batch)
  from batch_progress_only [OF idp long, of "Wrapper echo" "''bar''" ?E "\<lambda>b. b",
      THEN conjunct2, THEN conjunct2, THEN conjunct1, THEN mp, OF sub, THEN conjunct1]
  show ?thesis
    by (simp add: id_batches_def t_range2 batch_kwargs_def with_maxResults_def)
qed

theorem nested_progress_counterexample:
  "list_all (Wrapper echo) True ''bar'' [(''id'', PList [0 ..< 51])] =
   Some ([BatchBar ''bar'' 2,
          CallList [(''id'', PList [0 ..< 50]), (''maxResults'', PInt 50)],
          CallExecute [0 ..< 50], CallListNext [0 ..< 50] (Page 50 [0 ..< 50]),
          BatchStep,
          CallList [(''id'', PList [50]), (''maxResults'', PInt 50)],
          CallExecute [50], CallListNext [50] (Page 50 [50]),
          BatchStep],
         Inr ([0 ..< 50] @ [50]))"
proof -
  have "drain (yield_all (Wrapper echo)) (YEntry True ''bar'' [(''id'', PList [0 ..< 51])]) =
      Some (batch_bar True ''bar'' (length (py_range (length [0 ..< 51]) 50)) @
             concat (map (\<lambda>i. [CallList (with_maxResults (batch_kwargs [(''id'', PList [0 ..< 51])] (take 50 (drop i [0 ..< 51])))),
                 CallExecute (take 50 (drop i [0 ..< 51])),
                 CallListNext (take 50 (drop i [0 ..< 51])) (Page 50 (take 50 (drop i [0 ..< 51])))] @ batch_step True)
               (py_range (length [0 ..< 51]) 50)),
           concat (map (\<lambda>i. take 50 (drop i [0 ..< 51])) (py_range (length [0 ..< 51]) 50)), Returned)"
    by (rule drain_split) (simp_all add: echo_batch)
  then show ?thesis
    by (simp add: list_all_def t_range2 batch_bar_def batch_step_def with_maxResults_def
        batch_kwargs_def)
qed

text \<open>
  C7. Nothing is called before the first \<^verbatim>\<open>next()\<close>. A consumer that has pulled
  items up to some point inside a page has caused exactly these calls: for the
  generators of the earlier batches, their complete runs; for the current one, the
  \<^verbatim>\<open>list\<close> call, one \<^verbatim>\<open>execute\<close> and one \<^verbatim>\<open>list_next\<close> for each page wholly
  consumed, and the \<^verbatim>\<open>execute\<close> of the page it is in (pages with a total that
  line 62 can divide). \<^verbatim>\<open>list_next\<close> has not been
  called for that page, and no generator exists yet for a later batch: the
  generator is suspended with the rest of the page and the later indices. If the
  consumer stops here, that is all that is ever called.
\<close>

theorem laziness:
  assumes "call_list (resource_of self) (with_maxResults kw0) = Inr req0"
    and "chain (resource_of self) (Some req0) steps"
    and "chain_end (Some req0) steps = Some req"
    and "req_execute (resource_of self) req = Inr res" and "served res"
    and "0 < m" and "m \<le> length (items res)"
  shows "pulls (yield_all self) 0 (YEntry pb d kwargs) = Some ([], [], YEntry pb d kwargs) \<and>
    (unsplit kwargs \<and> kw0 = kwargs \<longrightarrow>
       pulls (yield_all self) (length (chain_items steps) + m) (YEntry pb d kwargs) =
         Some (CallList (with_maxResults kwargs) # chain_events pb d steps @
                 page_events pb d req res,
               map Item (chain_items steps @ take m (items res)),
               YElse (For pb d req res (drop m (items res))))) \<and>
    (map_of kwargs ''id'' = Some (PList ids) \<and> 50 < length ids \<and>
     py_range (length ids) 50 = done @ i # later \<and>
     kw0 = batch_kwargs kwargs (take 50 (drop i ids)) \<and>
     (\<forall>j \<in> set done.
        drain (yield_all_priv self) (Entry False [] (batch_kwargs kwargs (take 50 (drop j ids)))) =
          Some (E j, X j, Returned)) \<longrightarrow>
       pulls (yield_all self) (length (concat (map X done)) + (length (chain_items steps) + m))
           (YEntry pb d kwargs) =
         Some (batch_bar pb d (length (py_range (length ids) 50)) @
                 concat (map (\<lambda>j. E j @ batch_step pb) done) @
                 CallList (with_maxResults kw0) # chain_events False [] steps @
                 page_events False [] req res,
               map Item (concat (map X done) @ chain_items steps @ take m (items res)),
               YFrom pb d (AList.delete ''id'' kwargs) (PList ids) later
                 (For False [] req res (drop m (items res)))))"
proof (intro conjI impI)
  show "pulls (yield_all self) 0 (YEntry pb d kwargs) = Some ([], [], YEntry pb d kwargs)"
    by simp
next
  from assms(6) obtain n where n: "length (chain_items steps) + m = Suc n"
    by (cases m) auto
  assume "unsplit kwargs \<and> kw0 = kwargs"
  then have u: "unsplit kwargs" and k: "kw0 = kwargs" by simp_all
  have "pulls (yield_all_priv self) (length (chain_items steps) + m) (Entry pb d kwargs) =
     Some (CallList (with_maxResults kwargs) # chain_events pb d steps @ page_events pb d req res,
           map Item (chain_items steps @ take m (items res)),
           For pb d req res (drop m (items res)))"
    using pulls_into_page [OF assms(1) [unfolded k] assms(2-7)] .
  then have "pulls (yield_all self) (Suc n) (YElse (Entry pb d kwargs)) =
     Some (CallList (with_maxResults kwargs) # chain_events pb d steps @ page_events pb d req res,
           map Item (chain_items steps @ take m (items res)),
           YElse (For pb d req res (drop m (items res))))"
    unfolding n by (rule pulls_YElse_items)
  moreover have "pulls (yield_all self) (Suc n) (YEntry pb d kwargs) =
      pulls (yield_all self) (Suc n) (YElse (Entry pb d kwargs))"
    by (rule pulls_cong) (rule yield_all_unsplit [OF u])
  ultimately show "pulls (yield_all self) (length (chain_items steps) + m) (YEntry pb d kwargs) =
         Some (CallList (with_maxResults kwargs) # chain_events pb d steps @
                 page_events pb d req res,
               map Item (chain_items steps @ take m (items res)),
               YElse (For pb d req res (drop m (items res))))"
    unfolding n by simp
next
  from assms(6) obtain n where n: "length (chain_items steps) + m = Suc n"
    by (cases m) auto
  assume a: "map_of kwargs ''id'' = Some (PList ids) \<and> 50 < length ids \<and>
     py_range (length ids) 50 = done @ i # later \<and>
     kw0 = batch_kwargs kwargs (take 50 (drop i ids)) \<and>
     (\<forall>j \<in> set done.
        drain (yield_all_priv self) (Entry False [] (batch_kwargs kwargs (take 50 (drop j ids)))) =
          Some (E j, X j, Returned))"
  then have idp: "map_of kwargs ''id'' = Some (PList ids)" and long: "50 < length ids"
    and idxs: "py_range (length ids) 50 = done @ i # later"
    and k: "kw0 = AList.delete ''id'' kwargs @ [(''id'', PList (take 50 (drop i ids)))]"
    and sub: "\<forall>j \<in> set done.
        drain (yield_all_priv self)
          (Entry False [] (AList.delete ''id'' kwargs @ [(''id'', PList (take 50 (drop j ids)))])) =
          Some (E j, X j, Returned)"
    by (simp_all add: batch_kwargs_def)
  let ?kw = "AList.delete ''id'' kwargs"
  let ?L = "length (concat (map X done))"
  have "pulls (yield_all_priv self) (length (chain_items steps) + m) (Entry False [] kw0) =
     Some (CallList (with_maxResults kw0) # chain_events False [] steps @ page_events False [] req res,
           map Item (chain_items steps @ take m (items res)),
           For False [] req res (drop m (items res)))"
    using pulls_into_page [OF assms(1-7)] .
  then have "pulls (yield_all self) (Suc n) (YFrom pb d ?kw (PList ids) later (Entry False [] kw0)) =
     Some (CallList (with_maxResults kw0) # chain_events False [] steps @ page_events False [] req res,
           map Item (chain_items steps @ take m (items res)),
           YFrom pb d ?kw (PList ids) later (For False [] req res (drop m (items res))))"
    unfolding n by (rule pulls_YFrom_items)
  moreover have "pulls (yield_all self) (Suc n) (YForHead pb d ?kw (PList ids) (i # later)) =
      pulls (yield_all self) (Suc n) (YFrom pb d ?kw (PList ids) later (Entry False [] kw0))"
    unfolding k by (rule pulls_cong) (rule yield_all_YForHead_Cons)
  ultimately have cur: "pulls (yield_all self) (Suc n) (YForHead pb d ?kw (PList ids) (i # later)) =
     Some (CallList (with_maxResults kw0) # chain_events False [] steps @ page_events False [] req res,
           map Item (chain_items steps @ take m (items res)),
           YFrom pb d ?kw (PList ids) later (For False [] req res (drop m (items res))))"
    by simp
  have "pulls (yield_all self) (?L + Suc n) (YForHead pb d ?kw (PList ids) (done @ i # later)) =
     Option.bind (pulls (yield_all self) (Suc n) (YForHead pb d ?kw (PList ids) (i # later)))
       (prepend (concat (map (\<lambda>i. E i @ batch_step pb) done)) (map Item (concat (map X done))))"
    by (rule pulls_YForHead_done) (rule sub)
  then have heads: "pulls (yield_all self) (Suc (?L + n)) (YForHead pb d ?kw (PList ids) (done @ i # later)) =
     Some (concat (map (\<lambda>j. E j @ batch_step pb) done) @
             CallList (with_maxResults kw0) # chain_events False [] steps @ page_events False [] req res,
           map Item (concat (map X done)) @ map Item (chain_items steps @ take m (items res)),
           YFrom pb d ?kw (PList ids) later (For False [] req res (drop m (items res))))"
    by (simp only: cur) (simp add: prepend_def del: pulls.simps)
  have "yield_all self (YEntry pb d kwargs) =
     Option.bind
       (yield_all self (YForHead pb d ?kw (PList ids) (py_range (length ids) 50)))
       (emit (batch_bar pb d (length (py_range (length ids) 50))))"
    by (rule yield_all_split [OF idp long])
  from pulls_emit [of "yield_all self", OF this, of "?L + n"]
  have "pulls (yield_all self) (Suc (?L + n)) (YEntry pb d kwargs) =
     Some (batch_bar pb d (length (py_range (length ids) 50)) @
             concat (map (\<lambda>j. E j @ batch_step pb) done) @
             CallList (with_maxResults kw0) # chain_events False [] steps @ page_events False [] req res,
           map Item (concat (map X done)) @ map Item (chain_items steps @ take m (items res)),
           YFrom pb d ?kw (PList ids) later (For False [] req res (drop m (items res))))"
    by (simp only: idxs heads) (simp add: prepend_def del: pulls.simps)
  then show "pulls (yield_all self) (?L + (length (chain_items steps) + m)) (YEntry pb d kwargs) =
         Some (batch_bar pb d (length (py_range (length ids) 50)) @
                 concat (map (\<lambda>j. E j @ batch_step pb) done) @
                 CallList (with_maxResults kw0) # chain_events False [] steps @
                 page_events False [] req res,
               map Item (concat (map X done) @ chain_items steps @ take m (items res)),
               YFrom pb d (AList.delete ''id'' kwargs) (PList ids) later
                 (For False [] req res (drop m (items res))))"
    unfolding n by (simp del: pulls.simps)
qed

theorem laziness_witness:
  "pulls (yield_all (Wrapper (mock (Inr (Page 3 [''a'', ''b''])) (Inr (Page 3 [''c''])))))
     1 (YEntry False [] [(''playlistId'', PStr ''UU'')]) =
   Some ([CallList [(''playlistId'', PStr ''UU''), (''maxResults'', PInt 50)], CallExecute 0],
         [Item ''a''],
         YElse (For False [] 0 (Page 3 [''a'', ''b'']) [''b''])) \<and>
   pulls (yield_all (Wrapper echo)) 52 (YEntry True ''bar'' [(''id'', PList [0 ..< 120])]) =
   Some ([BatchBar ''bar'' 3,
          CallList [(''id'', PList [0 ..< 50]), (''maxResults'', PInt 50)],
          CallExecute [0 ..< 50], CallListNext [0 ..< 50] (Page 50 [0 ..< 50]),
          BatchStep,
          CallList [(''id'', PList [50 ..< 100]), (''maxResults'', PInt 50)],
          CallExecute [50 ..< 100]],
         map Item ([0 ..< 50] @ [50 ..< 52]),
         YFrom True ''bar'' [] (PList [0 ..< 120]) [100]
           (For False [] [50 ..< 100] (Page 50 [50 ..< 100]) [52 ..< 100]))"
proof
  show "pulls (yield_all (Wrapper (mock (Inr (Page 3 [''a'', ''b''])) (Inr (Page 3 [''c''])))))
     1 (YEntry False [] [(''playlistId'', PStr ''UU'')]) =
   Some ([CallList [(''playlistId'', PStr ''UU''), (''maxResults'', PInt 50)], CallExecute 0],
         [Item ''a''],
         YElse (For False [] 0 (Page 3 [''a'', ''b'']) [''b'']))"
    using laziness [of "Wrapper (mock (Inr (Page 3 [''a'', ''b''])) (Inr (Page 3 [''c''])))"
      "[(''playlistId'', PStr ''UU'')]" 0 "[]" 0 "Page 3 [''a'', ''b'']" 1
      False "[]" "[(''playlistId'', PStr ''UU'')]"]
    by (simp add: unsplit_def with_maxResults_def mock_def call_list_def
      chain_events_def chain_items_def page_events_def del: pulls.simps)
next
  let ?ids = "[0 ..< 120 :: nat]"
  let ?kwargs = "[(''id'', PList ?ids)]"
  let ?kw0 = "batch_kwargs ?kwargs (take 50 (drop 50 ?ids))"
  let ?E = "\<lambda>j. [CallList (with_maxResults (batch_kwargs ?kwargs (take 50 (drop j ?ids)))),
             CallExecute (take 50 (drop j ?ids)),
             CallListNext (take 50 (drop j ?ids))
               (Page (int (length (take 50 (drop j ?ids)))) (take 50 (drop j ?ids)))]"
  have h1: "call_list (resource_of (Wrapper echo)) (with_maxResults ?kw0) = Inr [50 ..< 100]"
    by (simp add: call_list_def echo_def map_of_batch_kwargs)
  have h2: "chain (resource_of (Wrapper echo)) (Some [50 ..< 100]) []" by simp
  have h3: "chain_end (Some [50 ..< 100 :: nat]) ([] :: (nat list \<times> nat page \<times> nat list option) list)
      = Some [50 ..< 100]" by simp
  have h4: "req_execute (resource_of (Wrapper echo)) [50 ..< 100] = Inr (Page 50 [50 ..< 100])"
    by (simp add: echo_def)
  have h4': "served (Page 50 [50 ..< 100 :: nat])" by simp
  have h5: "0 < (2 :: nat)" by simp
  have h6: "2 \<le> length (items (Page 50 [50 ..< 100 :: nat]))" by simp
  have pre: "map_of ?kwargs ''id'' = Some (PList ?ids) \<and> 50 < length ?ids \<and>
     py_range (length ?ids) 50 = [0] @ 50 # [100] \<and>
     ?kw0 = batch_kwargs ?kwargs (take 50 (drop 50 ?ids)) \<and>
     (\<forall>j \<in> set [0].
        drain (yield_all_priv (Wrapper echo))
          (Entry False [] (batch_kwargs ?kwargs (take 50 (drop j ?ids)))) =
          Some (?E j, take 50 (drop j ?ids), Returned))"
    by (simp add: t_range echo_batch)
  from laziness [OF h1 h2 h3 h4 h4' h5 h6, of True "''bar''" ?kwargs ?ids "[0]" 50 "[100]" ?E
      "\<lambda>j. take 50 (drop j ?ids)", THEN conjunct2, THEN conjunct2, THEN mp, OF pre]
  show "pulls (yield_all (Wrapper echo)) 52 (YEntry True ''bar'' [(''id'', PList [0 ..< 120])]) =
   Some ([BatchBar ''bar'' 3,
          CallList [(''id'', PList [0 ..< 50]), (''maxResults'', PInt 50)],
          CallExecute [0 ..< 50], CallListNext [0 ..< 50] (Page 50 [0 ..< 50]),
          BatchStep,
          CallList [(''id'', PList [50 ..< 100]), (''maxResults'', PInt 50)],
          CallExecute [50 ..< 100]],
         map Item ([0 ..< 50] @ [50 ..< 52]),
         YFrom True ''bar'' [] (PList [0 ..< 120]) [100]
           (For False [] [50 ..< 100] (Page 50 [50 ..< 100]) [52 ..< 100]))"
    by (simp add: t_range batch_kwargs_def with_maxResults_def chain_events_def chain_items_def
        page_events_def batch_bar_def batch_step_def del: pulls.simps)
qed

text \<open>
  C8. \<^verbatim>\<open>Wrapper.__init__\<close> raises \<^verbatim>\<open>ValueError\<close> for a resource whose
  \<^verbatim>\<open>list\<close> or \<^verbatim>\<open>list_next\<close> member is missing or not callable, and returns the
  wrapper of a resource that has both. It calls nothing on the resource: the
  check is made before any request exists.
\<close>

theorem construction_fails_fast:
  "(attr_list r = None \<or> attr_list r = Some Plain \<or>
    attr_list_next r = None \<or> attr_list_next r = Some Plain
      \<longrightarrow> Wrapper_init r = Inl ValueError) \<and>
   (attr_list r = Some (Callable f) \<and> attr_list_next r = Some (Callable g)
      \<longrightarrow> Wrapper_init r = Inr (Wrapper r) \<and>
          call_list (resource_of (Wrapper r)) kwargs = f kwargs \<and>
          call_list_next (resource_of (Wrapper r)) req res = g req res)"
  by (auto simp: Wrapper_init_def call_list_def call_list_next_def)

theorem construction_fails_fast_witness:
  "Wrapper_init (mock (Inr (Page 1 [''a''])) (Inr (Page 1 [''b''])) \<lparr> attr_list_next := None \<rparr>)
     = Inl ValueError \<and>
   Wrapper_init (mock (Inr (Page 1 [''a''])) (Inr (Page 1 [''b''])) \<lparr> attr_list := Some Plain \<rparr>)
     = Inl ValueError \<and>
   Wrapper_init (mock (Inr (Page 1 [''a''])) (Inr (Page 1 [''b''])))
     = Inr (Wrapper (mock (Inr (Page 1 [''a''])) (Inr (Page 1 [''b'']))))"
  using
    construction_fails_fast [of "mock (Inr (Page 1 [''a''])) (Inr (Page 1 [''b''])) \<lparr> attr_list_next := None \<rparr>"]
    construction_fails_fast [of "mock (Inr (Page 1 [''a''])) (Inr (Page 1 [''b''])) \<lparr> attr_list := Some Plain \<rparr>"]
    construction_fails_fast [of "mock (Inr (Page 1 [''a''])) (Inr (Page 1 [''b'']))"
      "\<lambda>kwargs. Inr 0" "\<lambda>req res. Inr (if req = 0 then Some 1 else None)"]
  by (simp add: mock_def)

text \<open>
  C9. \<^verbatim>\<open>list_all\<close> is one complete run of \<^verbatim>\<open>yield_all\<close>. On a resource that
  serves a fixed page sequence it returns the items of the pages in page order,
  with exactly the calls of that run; the list does not depend on the progress
  options, so any two invocations on the same keyword arguments return the same
  list; and it is, element by element, what a consumer gets by calling
  \<^verbatim>\<open>next()\<close> on \<^verbatim>\<open>yield_all\<close> until it stops. With more than 50 identifiers it
  returns the items of the batches in batch order. When the run raises,
  \<^verbatim>\<open>list_all\<close> raises the same error and returns no list.
\<close>

theorem list_all_is_drained_yield_all:
  "(unsplit kwargs \<and>
    call_list (resource_of self) (with_maxResults kwargs) = Inr req \<and>
    chain (resource_of self) (Some req) steps \<and> chain_end (Some req) steps = None \<longrightarrow>
      list_all self pb d kwargs =
        Some (CallList (with_maxResults kwargs) # chain_events pb d steps,
              Inr (chain_items steps)) \<and>
      list_all self pb' d' kwargs =
        Some (CallList (with_maxResults kwargs) # chain_events pb' d' steps,
              Inr (chain_items steps)) \<and>
      (\<exists>st. pulls (yield_all self) (Suc (length (chain_items steps))) (YEntry pb d kwargs) =
         Some (CallList (with_maxResults kwargs) # chain_events pb d steps,
               map Item (chain_items steps) @ [StopIteration], st))) \<and>
   (map_of kwargs ''id'' = Some (PList ids) \<and> 50 < length ids \<and>
    (\<forall>b \<in> set (id_batches ids).
       drain (yield_all_priv self) (Entry False [] (batch_kwargs kwargs b)) =
         Some (E b, X b, Returned)) \<longrightarrow>
      list_all self pb d kwargs =
        Some (batch_bar pb d (length (id_batches ids)) @
                concat (map (\<lambda>b. E b @ batch_step pb) (id_batches ids)),
              Inr (concat (map X (id_batches ids)))) \<and>
      (\<exists>st. pulls (yield_all self) (Suc (length (concat (map X (id_batches ids)))))
                (YEntry pb d kwargs) =
         Some (batch_bar pb d (length (id_batches ids)) @
                 concat (map (\<lambda>b. E b @ batch_step pb) (id_batches ids)),
               map Item (concat (map X (id_batches ids))) @ [StopIteration], st))) \<and>
   (unsplit kwargs \<and>
    call_list (resource_of self) (with_maxResults kwargs) = Inr req \<and>
    chain (resource_of self) (Some req) steps \<and> chain_end (Some req) steps = Some req' \<and>
    req_execute (resource_of self) req' = Inl e \<and> e \<noteq> HttpError 404 \<longrightarrow>
      list_all self pb d kwargs =
        Some (CallList (with_maxResults kwargs) # chain_events pb d steps @
                CallExecute req' # logged e,
              Inl e))"
proof (intro conjI impI)
  assume a: "unsplit kwargs \<and>
    call_list (resource_of self) (with_maxResults kwargs) = Inr req \<and>
    chain (resource_of self) (Some req) steps \<and> chain_end (Some req) steps = None"
  then have u: "unsplit kwargs"
    and l: "call_list (resource_of self) (with_maxResults kwargs) = Inr req"
    and c: "chain (resource_of self) (Some req) steps"
    and e: "chain_end (Some req) steps = None" by simp_all
  have run: "drain (yield_all self) (YEntry pb d kwargs) =
      Some (CallList (with_maxResults kwargs) # chain_events pb d steps, chain_items steps, Returned)"
    for pb d
    by (rule drain_unsplit [OF u]) (rule drain_pages [OF l c e])
  from list_all_of_drain(1) [OF run]
  show "list_all self pb d kwargs =
        Some (CallList (with_maxResults kwargs) # chain_events pb d steps,
              Inr (chain_items steps))" by simp
  from list_all_of_drain(1) [OF run]
  show "list_all self pb' d' kwargs =
        Some (CallList (with_maxResults kwargs) # chain_events pb' d' steps,
              Inr (chain_items steps))" by simp
  from list_all_of_drain(2) [OF run]
  show "\<exists>st. pulls (yield_all self) (Suc (length (chain_items steps))) (YEntry pb d kwargs) =
         Some (CallList (with_maxResults kwargs) # chain_events pb d steps,
               map Item (chain_items steps) @ [StopIteration], st)"
    by (simp add: ended_def del: pulls.simps)
next
  assume a: "map_of kwargs ''id'' = Some (PList ids) \<and> 50 < length ids \<and>
    (\<forall>b \<in> set (id_batches ids).
       drain (yield_all_priv self) (Entry False [] (batch_kwargs kwargs b)) =
         Some (E b, X b, Returned))"
  then have idp: "map_of kwargs ''id'' = Some (PList ids)" and long: "50 < length ids" by simp_all
  have "\<forall>i\<in>set (py_range (length ids) 50). drain (yield_all_priv self)
              (Entry False [] (batch_kwargs kwargs (take 50 (drop i ids)))) =
            Some (E (take 50 (drop i ids)), X (take 50 (drop i ids)), Returned)"
    using a by (simp add: id_batches_def)
  from drain_split [OF idp long this, of pb d]
  have run: "drain (yield_all self) (YEntry pb d kwargs) =
      Some (batch_bar pb d (length (id_batches ids)) @
              concat (map (\<lambda>b. E b @ batch_step pb) (id_batches ids)),
            concat (map X (id_batches ids)), Returned)"
    by (simp add: id_batches_def comp_def)
  from list_all_of_drain(1) [OF run]
  show "list_all self pb d kwargs =
        Some (batch_bar pb d (length (id_batches ids)) @
                concat (map (\<lambda>b. E b @ batch_step pb) (id_batches ids)),
              Inr (concat (map X (id_batches ids))))" by simp
  from list_all_of_drain(2) [OF run]
  show "\<exists>st. pulls (yield_all self) (Suc (length (concat (map X (id_batches ids)))))
                (YEntry pb d kwargs) =
         Some (batch_bar pb d (length (id_batches ids)) @
                 concat (map (\<lambda>b. E b @ batch_step pb) (id_batches ids)),
               map Item (concat (map X (id_batches ids))) @ [StopIteration], st)"
    by (simp add: ended_def del: pulls.simps)
next
  assume a: "unsplit kwargs \<and>
    call_list (resource_of self) (with_maxResults kwargs) = Inr req \<and>
    chain (resource_of self) (Some req) steps \<and> chain_end (Some req) steps = Some req' \<and>
    req_execute (resource_of self) req' = Inl e \<and> e \<noteq> HttpError 404"
  then have u: "unsplit kwargs"
    and l: "call_list (resource_of self) (with_maxResults kwargs) = Inr req"
    and c: "chain (resource_of self) (Some req) steps"
    and ce: "chain_end (Some req) steps = Some req'"
    and x: "req_execute (resource_of self) req' = Inl e" and ne: "e \<noteq> HttpError 404"
    by simp_all
  have "drain (yield_all self) (YEntry pb d kwargs) =
      Some (CallList (with_maxResults kwargs) # chain_events pb d steps @ CallExecute req' # logged e,
            chain_items steps, Failed e)"
    by (rule drain_unsplit [OF u]) (rule drain_fails [OF l c ce x ne])
  from list_all_of_drain(1) [OF this]
  show "list_all self pb d kwargs =
        Some (CallList (with_maxResults kwargs) # chain_events pb d steps @
                CallExecute req' # logged e,
              Inl e)" by simp
qed

theorem list_all_is_drained_yield_all_witness:
  "list_all (Wrapper (mock (Inr (Page 3 [''a'', ''b''])) (Inr (Page 3 [''c''])))) False []
     [(''mine'', PBool True)] =
   Some ([CallList [(''mine'', PBool True), (''maxResults'', PInt 50)],
          CallExecute 0, CallListNext 0 (Page 3 [''a'', ''b'']),
          CallExecute 1, CallListNext 1 (Page 3 [''c''])],
         Inr [''a'', ''b'', ''c'']) \<and>
   list_all (Wrapper (mock (Inr (Page 3 [''a'', ''b''])) (Inr (Page 3 [''c''])))) True ''subs''
     [(''mine'', PBool True)] =
   Some ([CallList [(''mine'', PBool True), (''maxResults'', PInt 50)],
          CallExecute 0, PageBar ''subs'' 1, CallListNext 0 (Page 3 [''a'', ''b'']),
          CallExecute 1, PageBar ''subs'' 1, CallListNext 1 (Page 3 [''c''])],
         Inr [''a'', ''b'', ''c''])"
  using list_all_is_drained_yield_all [of "[(''mine'', PBool True)]"
      "Wrapper (mock (Inr (Page 3 [''a'', ''b''])) (Inr (Page 3 [''c''])))" 0
      "[(0, Page 3 [''a'', ''b''], Some 1), (1, Page 3 [''c''], None)]" False "[]"
      True "''subs''", THEN conjunct1]
  by (simp add: unsplit_def with_maxResults_def mock_def call_list_def call_list_next_def
      chain_events_def chain_items_def page_events_def)

text \<open>
  C10. The recovery does not depend on the position: when the resource has served
  \<open>k\<close> pages (each with a total that line 62 can divide) and the \<^verbatim>\<open>execute\<close> of the next request raises an \<^verbatim>\<open>HttpError\<close>
  with status 404, a consumer that drains \<^verbatim>\<open>_yield_all\<close> gets exactly the items
  of the \<open>k\<close> pages and a normal end.
\<close>

theorem not_found_after_pages:
  assumes "call_list (resource_of self) (with_maxResults kwargs) = Inr req0"
    and "chain (resource_of self) (Some req0) steps"
    and "chain_end (Some req0) steps = Some req"
    and "req_execute (resource_of self) req = Inl (HttpError 404)"
  shows "drain (yield_all_priv self) (Entry pb d kwargs) =
           Some (CallList (with_maxResults kwargs) # chain_events pb d steps @ [CallExecute req],
                 chain_items steps, Returned)"
proof -
  have "yield_all_priv self (While pb d (Some req)) = Some ([CallExecute req], StopIteration, Exit)"
    using assms(4) by (simp add: priv_While_Some emit_def)
  then have "drain (yield_all_priv self) (While pb d (Some req)) = Some ([CallExecute req], [], Returned)"
    by (rule drain_Stop)
  then have "drain (yield_all_priv self) (While pb d (Some req0)) =
        Some (chain_events pb d steps @ [CallExecute req], chain_items steps, Returned)"
    using drain_chain [OF assms(2), of pb d] assms(3) by (simp add: prepend_def)
  then show ?thesis
    by (simp add: drain_Entry [OF assms(1)] prepend_def)
qed

theorem not_found_after_pages_witness:
  "drain (yield_all_priv (Wrapper (mock (Inr (Page 3 [''a'', ''b''])) (Inl (HttpError 404)))))
     (Entry False [] [(''playlistId'', PStr ''UU'')]) =
   Some ([CallList [(''playlistId'', PStr ''UU''), (''maxResults'', PInt 50)],
          CallExecute 0, CallListNext 0 (Page 3 [''a'', ''b'']), CallExecute 1],
         [''a'', ''b''], Returned)"
  using not_found_after_pages [of "Wrapper (mock (Inr (Page 3 [''a'', ''b''])) (Inl (HttpError 404)))"
      "[(''playlistId'', PStr ''UU'')]" 0 "[(0, Page 3 [''a'', ''b''], Some 1)]" 1 False "[]"]
  by (simp add: with_maxResults_def mock_def call_list_def call_list_next_def
      chain_events_def chain_items_def page_events_def)

end
